theory Spec2Isabelle
  imports Complex_Main "HOL-Library.Word"
begin

section \<open>Iterative DNS resolver: the data\<close>

text \<open>
  The development follows \<^verbatim>\<open>src/iterative_resolver.py\<close>. The wire format is handled
  by the library \<^verbatim>\<open>dnslib\<close> and the datagrams by the operating system; neither is part
  of the repository, so both enter the model as an environment: a parser for wire
  messages, a packer for questions, and one UDP exchange against a world of type \<open>'w\<close>
  that the exchange may change.
\<close>

type_synonym bytes = "8 word list"

text \<open>A resource record as the resolver reads it: \<^verbatim>\<open>rr.rname\<close>, \<^verbatim>\<open>rr.rtype\<close> (an int)
  and \<^verbatim>\<open>rr.rdata\<close>, the first and the last by their \<^verbatim>\<open>str\<close> rendering.\<close>

record resource_record =
  rname :: string
  rtype :: nat
  rdata :: string

text \<open>A parsed \<^verbatim>\<open>DNSRecord\<close>: \<^verbatim>\<open>str(q.qname)\<close>, and the sections \<^verbatim>\<open>rr\<close> (answers),
  \<^verbatim>\<open>auth\<close> (authority) and \<^verbatim>\<open>ar\<close> (additional).\<close>

record dns_message =
  qname :: string
  rr :: "resource_record list"
  auth :: "resource_record list"
  ar :: "resource_record list"

text \<open>The entries of \<^verbatim>\<open>timeline\<close> are dicts. A key that an entry does not have is
  \<open>None\<close> here; the key \<^verbatim>\<open>rtt\<close> is always present and holds Python's \<^verbatim>\<open>None\<close> or a number.\<close>

record step_entry =
  step :: nat
  server :: string
  rtt :: "rat option"
  status :: "string option"
  stage :: "string option"
  response :: "string list option"

text \<open>An exception that leaves \<^verbatim>\<open>resolve_iteratively\<close>: a parse failure of \<^verbatim>\<open>dnslib\<close>,
  a socket error other than the timeout the code catches, or the error the interpreter
  raises when the calls nest deeper than its recursion limit allows.\<close>

datatype error = DNSError | OSError | RecursionError

text \<open>One exchange of lines 43 to 55: \<^verbatim>\<open>sendto\<close>, then \<^verbatim>\<open>recvfrom\<close> under a timeout
  of two seconds. \<open>Reply d t\<close> is a datagram \<open>d\<close> with \<open>t\<close> the value
  \<^verbatim>\<open>round(rtt_ms, 2)\<close> of the two clock readings around it.\<close>

datatype exchange = Reply bytes rat | Timeout | Failed

record 'w env =
  dns_parse :: "bytes \<Rightarrow> dns_message option"
  dns_question :: "string \<Rightarrow> bytes"
  udp :: "'w \<Rightarrow> string \<Rightarrow> bytes \<Rightarrow> exchange \<times> 'w"

definition ROOT_NS :: "string list" where
  "ROOT_NS = [''198.41.0.4'', ''199.9.14.201'', ''192.33.4.12'']"

section \<open>Rendering numbers\<close>

text \<open>Python's \<^verbatim>\<open>str\<close> of a non-negative int.\<close>

definition digit_char :: "nat \<Rightarrow> char" where
  "digit_char d =
     (if d = 0 then CHR ''0'' else if d = 1 then CHR ''1'' else if d = 2 then CHR ''2''
      else if d = 3 then CHR ''3'' else if d = 4 then CHR ''4'' else if d = 5 then CHR ''5''
      else if d = 6 then CHR ''6'' else if d = 7 then CHR ''7'' else if d = 8 then CHR ''8''
      else CHR ''9'')"

function show_nat :: "nat \<Rightarrow> string" where
  "show_nat n = (if n < 10 then [digit_char n] else show_nat (n div 10) @ [digit_char (n mod 10)])"
  by pat_completeness auto
termination
  by (relation "measure id") auto

declare show_nat.simps [simp del]

section \<open>The resolver\<close>

text \<open>Line 55: the entry of a candidate that timed out.\<close>

definition timeout_entry :: "nat \<Rightarrow> string \<Rightarrow> step_entry" where
  "timeout_entry step_idx srv =
     \<lparr>step = step_idx, server = srv, rtt = None, status = Some ''timeout'',
      stage = None, response = None\<rparr>"

text \<open>Lines 42 to 55: the candidates in list order, until one replies. The result is
  the reply, if any, with the server that gave it, and the timeline with one entry
  more for each candidate that timed out.\<close>

fun probe_candidates ::
  "('w \<Rightarrow> string \<Rightarrow> bytes \<Rightarrow> exchange \<times> 'w) \<Rightarrow> bytes \<Rightarrow> nat \<Rightarrow> string list \<Rightarrow>
   step_entry list \<Rightarrow> 'w \<Rightarrow> error + ((string \<times> bytes \<times> rat) option \<times> step_entry list \<times> 'w)" where
  "probe_candidates exch query_bytes step_idx [] timeline w = Inr (None, timeline, w)"
| "probe_candidates exch query_bytes step_idx (srv # rest) timeline w =
     (case exch w srv query_bytes of
        (Reply got_data rtt_ms, w') \<Rightarrow> Inr (Some (srv, got_data, rtt_ms), timeline, w')
      | (Timeout, w') \<Rightarrow>
          probe_candidates exch query_bytes step_idx rest
            (timeline @ [timeout_entry step_idx srv]) w'
      | (Failed, w') \<Rightarrow> Inl OSError)"

text \<open>Lines 62 to 68.\<close>

definition classify_stage :: "nat \<Rightarrow> dns_message \<Rightarrow> string" where
  "classify_stage step_idx parsed =
     (if step_idx = 1 then ''Root''
      else if auth parsed \<noteq> [] \<and> rr parsed = [] then ''TLD''
      else ''Authoritative'')"

text \<open>Lines 70 to 77.\<close>

definition summarize :: "dns_message \<Rightarrow> string list" where
  "summarize parsed =
     (let records = (if rr parsed \<noteq> [] then rr parsed
                     else if auth parsed \<noteq> [] then auth parsed else [])
      in if records \<noteq> []
         then map (\<lambda>r. rname r @ '' -> '' @ show_nat (rtype r) @ '' -> '' @ rdata r) records
         else [''Referral or empty''])"

text \<open>Line 79: the entry of the candidate that replied.\<close>

definition response_entry :: "nat \<Rightarrow> string \<Rightarrow> rat \<Rightarrow> dns_message \<Rightarrow> step_entry" where
  "response_entry step_idx used_server rtt_ms parsed =
     \<lparr>step = step_idx, server = used_server, rtt = Some rtt_ms, status = None,
      stage = Some (classify_stage step_idx parsed), response = Some (summarize parsed)\<rparr>"

text \<open>Lines 86, 88 and 98 to 100: the addresses of the type 1 (A) records of a section,
  and the names of the type 2 (NS) records of the authority section.\<close>

definition a_addresses :: "resource_record list \<Rightarrow> string list" where
  "a_addresses rs = map rdata (filter (\<lambda>r. rtype r = 1) rs)"

definition glue_ips :: "dns_message \<Rightarrow> string list" where
  "glue_ips parsed = a_addresses (ar parsed)"

definition ns_names :: "dns_message \<Rightarrow> string list" where
  "ns_names parsed = map rdata (filter (\<lambda>r. rtype r = 2) (auth parsed))"

text \<open>
  \<^verbatim>\<open>resolve_iteratively\<close> calls itself from inside its loops and need not return, so
  the three functions below run on fuel: every call costs one unit, and \<open>None\<close> is a
  run cut off by the fuel. \<open>Some (Inl e)\<close> is the exception \<open>e\<close>, \<open>Some (Inr r)\<close> a return.

  \<^item> \<open>resolve_iteratively\<close> is the function (lines 21 to 109). It returns the payload,
    the timeline and the queried name; the elapsed wall-clock time, its third
    component in the source, is left out.
  \<^item> \<open>while_loop\<close> is the loop of lines 36 to 106, entered with \<^verbatim>\<open>step_idx\<close>,
    \<^verbatim>\<open>current_ns\<close> and \<^verbatim>\<open>timeline\<close> as they stand.
  \<^item> \<open>glue_loop\<close> is the loop of lines 92 to 100 over \<^verbatim>\<open>ns_names\<close>, with
    \<^verbatim>\<open>resolved_ips\<close> as accumulated so far. \<^verbatim>\<open>if sub_resp\<close> holds for a payload that is
    neither \<^verbatim>\<open>None\<close> nor empty.

  These three are the code on a call stack that never overflows. The interpreter's
  recursion limit is added in the second set of functions, further down.
\<close>

fun resolve_iteratively ::
    "'w env \<Rightarrow> nat \<Rightarrow> 'w \<Rightarrow> bytes \<Rightarrow>
     (error + ((bytes option \<times> step_entry list \<times> string) \<times> 'w)) option"
  and while_loop ::
    "'w env \<Rightarrow> nat \<Rightarrow> 'w \<Rightarrow> bytes \<Rightarrow> nat \<Rightarrow> string list \<Rightarrow> step_entry list \<Rightarrow>
     (error + ((bytes option \<times> step_entry list) \<times> 'w)) option"
  and glue_loop ::
    "'w env \<Rightarrow> nat \<Rightarrow> 'w \<Rightarrow> string list \<Rightarrow> step_entry list \<Rightarrow> string list \<Rightarrow>
     (error + ((string list \<times> step_entry list) \<times> 'w)) option" where
  "resolve_iteratively E 0 w query_bytes = None"
| "resolve_iteratively E (Suc n) w query_bytes =
     (case dns_parse E query_bytes of
        None \<Rightarrow> Some (Inl DNSError)
      | Some query \<Rightarrow>
          (case while_loop E n w query_bytes 0 ROOT_NS [] of
             None \<Rightarrow> None
           | Some (Inl e) \<Rightarrow> Some (Inl e)
           | Some (Inr ((response_payload, timeline), w')) \<Rightarrow>
               Some (Inr ((response_payload, timeline, qname query), w'))))"
| "while_loop E 0 w query_bytes step_idx0 current_ns timeline = None"
| "while_loop E (Suc n) w query_bytes step_idx0 current_ns timeline =
     (let step_idx = step_idx0 + 1 in
      case probe_candidates (udp E) query_bytes step_idx current_ns timeline w of
        Inl e \<Rightarrow> Some (Inl e)
      | Inr (None, timeline1, w1) \<Rightarrow> Some (Inr ((None, timeline1), w1))
      | Inr (Some (used_server, got_data, rtt_ms), timeline1, w1) \<Rightarrow>
          (case dns_parse E got_data of
             None \<Rightarrow> Some (Inl DNSError)
           | Some parsed \<Rightarrow>
               (let timeline2 = timeline1 @ [response_entry step_idx used_server rtt_ms parsed] in
                if rr parsed \<noteq> [] then Some (Inr ((Some got_data, timeline2), w1))
                else if glue_ips parsed \<noteq> []
                then while_loop E n w1 query_bytes step_idx (glue_ips parsed) timeline2
                else if ns_names parsed = [] then Some (Inr ((None, timeline2), w1))
                else
                  (case glue_loop E n w1 (ns_names parsed) timeline2 [] of
                     None \<Rightarrow> None
                   | Some (Inl e) \<Rightarrow> Some (Inl e)
                   | Some (Inr ((resolved_ips, timeline3), w2)) \<Rightarrow>
                       if resolved_ips = [] then Some (Inr ((None, timeline3), w2))
                       else while_loop E n w2 query_bytes step_idx resolved_ips timeline3))))"
| "glue_loop E 0 w names timeline resolved_ips = None"
| "glue_loop E (Suc n) w [] timeline resolved_ips = Some (Inr ((resolved_ips, timeline), w))"
| "glue_loop E (Suc n) w (nm # names) timeline resolved_ips =
     (case resolve_iteratively E n w (dns_question E nm) of
        None \<Rightarrow> None
      | Some (Inl e) \<Rightarrow> Some (Inl e)
      | Some (Inr ((sub_resp, sub_log, sub_name), w1)) \<Rightarrow>
          (case sub_resp of
             None \<Rightarrow> glue_loop E n w1 names (timeline @ sub_log) resolved_ips
           | Some d \<Rightarrow>
               if d = [] then glue_loop E n w1 names (timeline @ sub_log) resolved_ips
               else
                 (case dns_parse E d of
                    None \<Rightarrow> Some (Inl DNSError)
                  | Some p \<Rightarrow>
                      glue_loop E n w1 names (timeline @ sub_log)
                        (resolved_ips @ a_addresses (rr p)))))"

text \<open>
  The same three functions under the interpreter's recursion limit. The call of line 94
  is an ordinary Python call, so every nested resolution is one more activation of
  \<^verbatim>\<open>resolve_iteratively\<close> on the call stack. \<open>limit\<close> is the number of such activations
  that the interpreter admits, each with the room its library calls need, and \<open>depth\<close>
  is the number of activations already on the stack: 0 for the call \<^verbatim>\<open>run_server\<close>
  makes. An activation that does not fit raises \<^verbatim>\<open>RecursionError\<close>. Nothing in
  \<^verbatim>\<open>resolve_iteratively\<close> catches it (line 54 catches \<^verbatim>\<open>socket.timeout\<close> only), so it
  passes through every activation to the caller, as the other exceptions do.
\<close>

fun resolve_iteratively_at ::
    "nat \<Rightarrow> 'w env \<Rightarrow> nat \<Rightarrow> nat \<Rightarrow> 'w \<Rightarrow> bytes \<Rightarrow>
     (error + ((bytes option \<times> step_entry list \<times> string) \<times> 'w)) option"
  and while_loop_at ::
    "nat \<Rightarrow> 'w env \<Rightarrow> nat \<Rightarrow> nat \<Rightarrow> 'w \<Rightarrow> bytes \<Rightarrow> nat \<Rightarrow> string list \<Rightarrow>
     step_entry list \<Rightarrow> (error + ((bytes option \<times> step_entry list) \<times> 'w)) option"
  and glue_loop_at ::
    "nat \<Rightarrow> 'w env \<Rightarrow> nat \<Rightarrow> nat \<Rightarrow> 'w \<Rightarrow> string list \<Rightarrow> step_entry list \<Rightarrow>
     string list \<Rightarrow> (error + ((string list \<times> step_entry list) \<times> 'w)) option" where
  "resolve_iteratively_at limit E 0 depth w query_bytes = None"
| "resolve_iteratively_at limit E (Suc n) depth w query_bytes =
     (if limit \<le> depth then Some (Inl RecursionError)
      else
        (case dns_parse E query_bytes of
           None \<Rightarrow> Some (Inl DNSError)
         | Some query \<Rightarrow>
             (case while_loop_at limit E n depth w query_bytes 0 ROOT_NS [] of
                None \<Rightarrow> None
              | Some (Inl e) \<Rightarrow> Some (Inl e)
              | Some (Inr ((response_payload, timeline), w')) \<Rightarrow>
                  Some (Inr ((response_payload, timeline, qname query), w')))))"
| "while_loop_at limit E 0 depth w query_bytes step_idx0 current_ns timeline = None"
| "while_loop_at limit E (Suc n) depth w query_bytes step_idx0 current_ns timeline =
     (let step_idx = step_idx0 + 1 in
      case probe_candidates (udp E) query_bytes step_idx current_ns timeline w of
        Inl e \<Rightarrow> Some (Inl e)
      | Inr (None, timeline1, w1) \<Rightarrow> Some (Inr ((None, timeline1), w1))
      | Inr (Some (used_server, got_data, rtt_ms), timeline1, w1) \<Rightarrow>
          (case dns_parse E got_data of
             None \<Rightarrow> Some (Inl DNSError)
           | Some parsed \<Rightarrow>
               (let timeline2 = timeline1 @ [response_entry step_idx used_server rtt_ms parsed] in
                if rr parsed \<noteq> [] then Some (Inr ((Some got_data, timeline2), w1))
                else if glue_ips parsed \<noteq> []
                then while_loop_at limit E n depth w1 query_bytes step_idx (glue_ips parsed)
                       timeline2
                else if ns_names parsed = [] then Some (Inr ((None, timeline2), w1))
                else
                  (case glue_loop_at limit E n depth w1 (ns_names parsed) timeline2 [] of
                     None \<Rightarrow> None
                   | Some (Inl e) \<Rightarrow> Some (Inl e)
                   | Some (Inr ((resolved_ips, timeline3), w2)) \<Rightarrow>
                       if resolved_ips = [] then Some (Inr ((None, timeline3), w2))
                       else while_loop_at limit E n depth w2 query_bytes step_idx resolved_ips
                              timeline3))))"
| "glue_loop_at limit E 0 depth w names timeline resolved_ips = None"
| "glue_loop_at limit E (Suc n) depth w [] timeline resolved_ips =
     Some (Inr ((resolved_ips, timeline), w))"
| "glue_loop_at limit E (Suc n) depth w (nm # names) timeline resolved_ips =
     (case resolve_iteratively_at limit E n (Suc depth) w (dns_question E nm) of
        None \<Rightarrow> None
      | Some (Inl e) \<Rightarrow> Some (Inl e)
      | Some (Inr ((sub_resp, sub_log, sub_name), w1)) \<Rightarrow>
          (case sub_resp of
             None \<Rightarrow> glue_loop_at limit E n depth w1 names (timeline @ sub_log) resolved_ips
           | Some d \<Rightarrow>
               if d = []
               then glue_loop_at limit E n depth w1 names (timeline @ sub_log) resolved_ips
               else
                 (case dns_parse E d of
                    None \<Rightarrow> Some (Inl DNSError)
                  | Some p \<Rightarrow>
                      glue_loop_at limit E n depth w1 names (timeline @ sub_log)
                        (resolved_ips @ a_addresses (rr p)))))"

section \<open>The log lines\<close>

text \<open>
  \<^verbatim>\<open>run_server\<close> (lines 135 and 136 of \<^verbatim>\<open>src/iterative_resolver.py\<close>) prints one line for
  each entry of the timeline. \<^verbatim>\<open>s.get('stage', 'N/A')\<close> is \<^verbatim>\<open>N/A\<close> for an entry without
  the key, and \<^verbatim>\<open>s.get('rtt')\<close> renders as \<^verbatim>\<open>None\<close> or as Python's \<^verbatim>\<open>str\<close> of the float,
  which is the parameter \<open>str_float\<close>.
\<close>

definition server_step_line :: "(rat \<Rightarrow> string) \<Rightarrow> step_entry \<Rightarrow> string" where
  "server_step_line str_float s =
     ''  Step '' @ show_nat (step s) @ '' | Server: '' @ server s @
     '' | Stage: '' @ (case stage s of None \<Rightarrow> ''N/A'' | Some g \<Rightarrow> g) @
     '' | RTT: '' @ (case rtt s of None \<Rightarrow> ''None'' | Some t \<Rightarrow> str_float t) @ '' ms''"

text \<open>
  \<^verbatim>\<open>src/iterative_client.py\<close> writes its log with f-strings. \<open>fmt2\<close> is the format
  \<^verbatim>\<open>:.2f\<close> on the exact value of the float: two decimals, a tie rounded to even.
\<close>

definition round_half_even :: "rat \<Rightarrow> int" where
  "round_half_even x =
     (let f = \<lfloor>x\<rfloor>; d = x - of_int f
      in if d < 1 / 2 then f else if 1 / 2 < d then f + 1 else if even f then f else f + 1)"

definition fmt2 :: "rat \<Rightarrow> string" where
  "fmt2 x =
     (let c = nat (round_half_even (\<bar>x\<bar> * 100))
      in (if x < 0 then ''-'' else []) @ show_nat (c div 100) @ ''.'' @
         [digit_char (c mod 100 div 10), digit_char (c mod 10)])"

text \<open>Python's \<^verbatim>\<open>str\<close> of a list of strings that hold no quote, backslash or control
  character, as addresses do.\<close>

fun join_comma :: "string list \<Rightarrow> string" where
  "join_comma [] = []"
| "join_comma [x] = x"
| "join_comma (x # y # ys) = x @ '', '' @ join_comma (y # ys)"

definition py_str_list :: "string list \<Rightarrow> string" where
  "py_str_list xs = ''['' @ join_comma (map (\<lambda>x. [CHR 0x27] @ x @ [CHR 0x27]) xs) @ '']''"

text \<open>Python's \<^verbatim>\<open>str\<close> of a variable that holds an address or \<^verbatim>\<open>None\<close>.\<close>

definition py_str_opt :: "string option \<Rightarrow> string" where
  "py_str_opt a = (case a of None \<Rightarrow> ''None'' | Some x \<Rightarrow> x)"

text \<open>
  One constructor for each call of \<^verbatim>\<open>append_log\<close> in \<^verbatim>\<open>iterative_lookup\<close>, with the values
  its f-string interpolates: the timestamp, the domain, the server, and then the
  cached or answered addresses, the time of the step, or \<^verbatim>\<open>str(ex)\<close> of the exception
  caught. The source lines are 40, 57, 67, 80, 89, 102, 104, 107, 112 and 114.
\<close>

datatype log_call =
    CacheHit string string "string list"
  | RootReferral string string string rat
  | RootFail string string string string
  | TldReferral string string string rat
  | TldFail string string string string
  | AuthAnswer string string "string option" "string list" rat
  | AuthNoAnswer string string "string option" rat
  | AuthFail string string "string option" string
  | TotalStored string string rat
  | TotalNoResponse string string rat

definition mode :: string where
  "mode = ''Iterative''"

fun log_line :: "log_call \<Rightarrow> string" where
  "log_line (CacheHit ts domain ips) =
     ts @ '' | '' @ domain @ '' | '' @ mode @ '' | CACHE | Step: Cache | Response: '' @
     py_str_list ips @ '' | RTT: 0 ms | Total: 0 ms | Cache HIT''"
| "log_line (RootReferral ts domain root_srv step_rtt) =
     ts @ '' | '' @ domain @ '' | '' @ mode @ '' | '' @ root_srv @
     '' | Step: Root | Response: Referral | RTT: '' @ fmt2 step_rtt @ '' ms | Cache MISS''"
| "log_line (RootFail ts domain root_srv ex) =
     ts @ '' | '' @ domain @ '' | '' @ mode @ '' | '' @ root_srv @
     '' | Step: Root | Response: FAIL ('' @ ex @ '') | RTT: - | Cache MISS''"
| "log_line (TldReferral ts domain tld_ip step_rtt) =
     ts @ '' | '' @ domain @ '' | '' @ mode @ '' | '' @ tld_ip @
     '' | Step: TLD | Response: Referral | RTT: '' @ fmt2 step_rtt @ '' ms | Cache MISS''"
| "log_line (TldFail ts domain tld_ip ex) =
     ts @ '' | '' @ domain @ '' | '' @ mode @ '' | '' @ tld_ip @
     '' | Step: TLD | Response: FAIL ('' @ ex @ '') | RTT: - | Cache MISS''"
| "log_line (AuthAnswer ts domain auth_ip answer_ips step_rtt) =
     ts @ '' | '' @ domain @ '' | '' @ mode @ '' | '' @ py_str_opt auth_ip @
     '' | Step: Authoritative | Response: '' @ py_str_list answer_ips @
     '' | RTT: '' @ fmt2 step_rtt @ '' ms | Cache MISS''"
| "log_line (AuthNoAnswer ts domain auth_ip step_rtt) =
     ts @ '' | '' @ domain @ '' | '' @ mode @ '' | '' @ py_str_opt auth_ip @
     '' | Step: Authoritative | Response: NO ANSWER | RTT: '' @ fmt2 step_rtt @
     '' ms | Cache MISS''"
| "log_line (AuthFail ts domain auth_ip ex) =
     ts @ '' | '' @ domain @ '' | '' @ mode @ '' | '' @ py_str_opt auth_ip @
     '' | Step: Authoritative | Response: FAIL ('' @ ex @ '') | RTT: - | Cache MISS''"
| "log_line (TotalStored ts domain total_ms) =
     ts @ '' | '' @ domain @ '' | TOTAL | TotalTime: '' @ fmt2 total_ms @ '' ms | Cache Stored''"
| "log_line (TotalNoResponse ts domain total_ms) =
     ts @ '' | '' @ domain @ '' | TOTAL | TotalTime: '' @ fmt2 total_ms @ '' ms | No Response''"

section \<open>Notions the properties are stated with\<close>

text \<open>The candidates \<open>srvs\<close>, tried in this order from the world \<open>w\<close>, all time out; the
  result is the world after the last of them.\<close>

fun all_time_out ::
  "('w \<Rightarrow> string \<Rightarrow> bytes \<Rightarrow> exchange \<times> 'w) \<Rightarrow> bytes \<Rightarrow> string list \<Rightarrow> 'w \<Rightarrow> 'w option" where
  "all_time_out exch query_bytes [] w = Some w"
| "all_time_out exch query_bytes (srv # rest) w =
     (case exch w srv query_bytes of
        (Timeout, w') \<Rightarrow> all_time_out exch query_bytes rest w'
      | (Reply d t, w') \<Rightarrow> None
      | (Failed, w') \<Rightarrow> None)"

text \<open>A referral that carries glue: no answer, name servers named in the authority
  section, and addresses in the additional section.\<close>

definition glued_referral :: "dns_message \<Rightarrow> bool" where
  "glued_referral parsed = (rr parsed = [] \<and> ns_names parsed \<noteq> [] \<and> glue_ips parsed \<noteq> [])"

text \<open>Step indices as positions in the trace: 1, 2, 3 and so on, in trace order.\<close>

definition numbered_globally :: "step_entry list \<Rightarrow> bool" where
  "numbered_globally t = (map step t = [1 ..< Suc (length t)])"

text \<open>
  Step indices as levels of one call. \<open>trace_from k t\<close>: \<open>t\<close> is what one call of
  \<^verbatim>\<open>resolve_iteratively\<close> appends from its level \<open>k\<close> on. A level contributes the entries
  of its candidates that timed out and, if one replied, the entry of the reply, all
  with the index \<open>k\<close>; the traces of the nested calls that the reply started follow
  (\<open>spliced\<close>), each numbered from 1 again; then the next level, \<open>k + 1\<close>.
\<close>

inductive trace_from :: "nat \<Rightarrow> step_entry list \<Rightarrow> bool"
  and spliced :: "step_entry list \<Rightarrow> bool" where
  all_timed_out: "trace_from k (map (timeout_entry k) srvs)"
| responded: "spliced subs \<Longrightarrow> trace_from (Suc k) rest \<Longrightarrow>
     trace_from k (map (timeout_entry k) srvs @ response_entry k srv t p # subs @ rest)"
| no_glue_call: "spliced []"
| glue_call: "trace_from 1 sub \<Longrightarrow> spliced subs \<Longrightarrow> spliced (sub @ subs)"

definition stages :: "string list" where
  "stages = [''Root'', ''TLD'', ''Authoritative'']"

text \<open>An entry with every field of the schema: a stage, a summary that is not empty,
  and a round-trip time that is null exactly on a timeout.\<close>

definition full_entry :: "step_entry \<Rightarrow> bool" where
  "full_entry e =
     (1 \<le> step e \<and>
      (case stage e of None \<Rightarrow> False | Some g \<Rightarrow> g \<in> set stages) \<and>
      (case response e of None \<Rightarrow> False | Some ls \<Rightarrow> ls \<noteq> []) \<and>
      ((rtt e = None) = (status e = Some ''timeout'')))"

text \<open>The two shapes of entry the code builds: by its round-trip time an entry is that
  of a timeout, without stage and summary, or that of a reply, without status.\<close>

definition entry_fields :: "step_entry \<Rightarrow> bool" where
  "entry_fields e =
     (1 \<le> step e \<and>
      (case rtt e of
         None \<Rightarrow> status e = Some ''timeout'' \<and> stage e = None \<and> response e = None
       | Some t \<Rightarrow>
           status e = None \<and>
           (case stage e of None \<Rightarrow> False | Some g \<Rightarrow> g \<in> set stages) \<and>
           (case response e of None \<Rightarrow> False | Some ls \<Rightarrow> ls \<noteq> [])))"

text \<open>The schema of a serialized step, field by field; \<open>unit\<close> is what follows the
  round-trip time, \<^verbatim>\<open> ms\<close> in the schema.\<close>

record line_fields =
  f_timestamp :: string
  f_domain :: string
  f_mode :: string
  f_server :: string
  f_stage :: string
  f_summary :: string
  f_rtt :: string
  f_cache :: string

definition schema_fields :: "string \<Rightarrow> line_fields \<Rightarrow> string" where
  "schema_fields unit l =
     f_timestamp l @ '' | '' @ f_domain l @ '' | '' @ f_mode l @ '' | '' @ f_server l @
     '' | Step: '' @ f_stage l @ '' | Response: '' @ f_summary l @
     '' | RTT: '' @ f_rtt l @ unit @ '' | '' @ f_cache l"

definition schema_line :: "line_fields \<Rightarrow> string" where
  "schema_line = schema_fields '' ms''"

definition is_digit :: "char \<Rightarrow> bool" where
  "is_digit c = (c \<in> set ''0123456789'')"

text \<open>A decimal value with two decimals: digits, a point, two digits.\<close>

definition is_decimal2 :: "string \<Rightarrow> bool" where
  "is_decimal2 s =
     (case rev s of
        b # a # dot # ds \<Rightarrow>
          is_digit b \<and> is_digit a \<and> dot = CHR ''.'' \<and> ds \<noteq> [] \<and> list_all is_digit ds
      | _ \<Rightarrow> False)"

text \<open>A contiguous occurrence of \<open>pat\<close> in \<open>s\<close>.\<close>

fun occurs_in :: "string \<Rightarrow> string \<Rightarrow> bool" where
  "occurs_in pat [] = (pat = [])"
| "occurs_in pat (c # cs) = (take (length pat) (c # cs) = pat \<or> occurs_in pat cs)"

text \<open>The nested resolutions of the name servers \<open>names\<close>, one after the other from the
  world \<open>w\<close>, as the specification words them: the resolution of a name returns; if it
  failed (no payload) the name is skipped, otherwise the addresses of the type A
  records of its answer are merged into the result. \<open>collects E w names ips logs w'\<close>
  holds when this gives the addresses \<open>ips\<close> and the sub-traces \<open>logs\<close>, in order, and
  ends in the world \<open>w'\<close>.\<close>

inductive collects ::
  "'w env \<Rightarrow> 'w \<Rightarrow> string list \<Rightarrow> string list \<Rightarrow> step_entry list \<Rightarrow> 'w \<Rightarrow> bool"
  for E :: "'w env" where
  no_more_names: "collects E w [] [] [] w"
| skip_failed:
    "resolve_iteratively E n w (dns_question E nm) = Some (Inr ((None, sub_log, x), w1)) \<Longrightarrow>
     collects E w1 names ips logs w2 \<Longrightarrow>
     collects E w (nm # names) ips (sub_log @ logs) w2"
| skip_empty:
    "resolve_iteratively E n w (dns_question E nm) = Some (Inr ((Some [], sub_log, x), w1)) \<Longrightarrow>
     collects E w1 names ips logs w2 \<Longrightarrow>
     collects E w (nm # names) ips (sub_log @ logs) w2"
| merge_resolved:
    "resolve_iteratively E n w (dns_question E nm) = Some (Inr ((Some d, sub_log, x), w1)) \<Longrightarrow>
     d \<noteq> [] \<Longrightarrow> dns_parse E d = Some p \<Longrightarrow>
     collects E w1 names ips logs w2 \<Longrightarrow>
     collects E w (nm # names) (a_addresses (rr p) @ ips) (sub_log @ logs) w2"

section \<open>Fixtures\<close>

text \<open>
  A fixture is a table of wire messages, a table of packed questions and a table of
  what each server replies to each query; a server the table does not list times out.
  The world is the list of the servers contacted so far.
\<close>

definition fixture ::
  "(bytes \<times> dns_message) list \<Rightarrow> (string \<times> bytes) list \<Rightarrow>
   ((string \<times> bytes) \<times> exchange) list \<Rightarrow> string list env" where
  "fixture messages questions network =
     \<lparr>dns_parse = map_of messages,
      dns_question = (\<lambda>nm. case map_of questions nm of None \<Rightarrow> [] | Some q \<Rightarrow> q),
      udp = (\<lambda>w srv q. (case map_of network (srv, q) of None \<Rightarrow> Timeout | Some x \<Rightarrow> x,
                         w @ [srv]))\<rparr>"

definition query_www :: dns_message where
  "query_www = \<lparr>qname = ''www.example.com.'', rr = [], auth = [], ar = []\<rparr>"

definition query_ns :: dns_message where
  "query_ns = \<lparr>qname = ''a.gtld.example.'', rr = [], auth = [], ar = []\<rparr>"

definition root_referral_glueless :: dns_message where
  "root_referral_glueless =
     \<lparr>qname = ''www.example.com.'', rr = [],
      auth = [\<lparr>rname = ''com.'', rtype = 2, rdata = ''a.gtld.example.''\<rparr>], ar = []\<rparr>"

definition root_referral_glued :: dns_message where
  "root_referral_glued =
     \<lparr>qname = ''www.example.com.'', rr = [],
      auth = [\<lparr>rname = ''com.'', rtype = 2, rdata = ''a.gtld.example.''\<rparr>],
      ar = [\<lparr>rname = ''a.gtld.example.'', rtype = 1, rdata = ''192.0.2.1''\<rparr>]\<rparr>"

definition ns_answer :: dns_message where
  "ns_answer =
     \<lparr>qname = ''a.gtld.example.'',
      rr = [\<lparr>rname = ''a.gtld.example.'', rtype = 1, rdata = ''192.0.2.1''\<rparr>],
      auth = [], ar = []\<rparr>"

definition tld_referral :: dns_message where
  "tld_referral =
     \<lparr>qname = ''www.example.com.'', rr = [],
      auth = [\<lparr>rname = ''example.com.'', rtype = 2, rdata = ''ns.example.com.''\<rparr>],
      ar = [\<lparr>rname = ''ns.example.com.'', rtype = 1, rdata = ''192.0.2.53''\<rparr>]\<rparr>"

definition www_answer :: dns_message where
  "www_answer =
     \<lparr>qname = ''www.example.com.'',
      rr = [\<lparr>rname = ''www.example.com.'', rtype = 1, rdata = ''93.184.216.34''\<rparr>],
      auth = [], ar = []\<rparr>"

definition messages :: "(bytes \<times> dns_message) list" where
  "messages =
     [([1], query_www), ([2], query_ns), ([11], root_referral_glueless), ([12], ns_answer),
      ([13], tld_referral), ([14], www_answer), ([15], root_referral_glued)]"

definition questions :: "(string \<times> bytes) list" where
  "questions = [(''a.gtld.example.'', [2])]"

text \<open>The first root server is down. The second refers to a name server without glue
  and resolves that name itself; the delegation then goes on with glue.\<close>

definition glueless_env :: "string list env" where
  "glueless_env = fixture messages questions
     [((''199.9.14.201'', [1]), Reply [11] 20), ((''199.9.14.201'', [2]), Reply [12] 21),
      ((''192.0.2.1'', [1]), Reply [13] 15), ((''192.0.2.53'', [1]), Reply [14] 9)]"

definition glueless_trace :: "step_entry list" where
  "glueless_trace =
     [timeout_entry 1 ''198.41.0.4'',
      response_entry 1 ''199.9.14.201'' 20 root_referral_glueless,
      timeout_entry 1 ''198.41.0.4'',
      response_entry 1 ''199.9.14.201'' 21 ns_answer,
      response_entry 2 ''192.0.2.1'' 15 tld_referral,
      response_entry 3 ''192.0.2.53'' 9 www_answer]"

text \<open>Root, TLD and authoritative server, each referral with glue.\<close>

definition three_level_env :: "string list env" where
  "three_level_env = fixture messages questions
     [((''198.41.0.4'', [1]), Reply [15] 20), ((''192.0.2.1'', [1]), Reply [13] 15),
      ((''192.0.2.53'', [1]), Reply [14] 9)]"

text \<open>No server replies.\<close>

definition dead_env :: "string list env" where
  "dead_env = fixture messages questions []"

text \<open>The first root server replies with a datagram that does not parse; the second
  would answer. In the twin the first root server times out instead.\<close>

definition malformed_env :: "string list env" where
  "malformed_env = fixture messages questions
     [((''198.41.0.4'', [1]), Reply [255] 5), ((''199.9.14.201'', [1]), Reply [14] 9)]"

definition timeout_twin_env :: "string list env" where
  "timeout_twin_env = fixture messages questions [((''199.9.14.201'', [1]), Reply [14] 9)]"

text \<open>A delegation cycle: the root refers every query, also the one for the name
  server it names, to that name server, without glue.\<close>

definition cycle_env :: "string list env" where
  "cycle_env = fixture messages questions
     [((''198.41.0.4'', [1]), Reply [11] 20), ((''198.41.0.4'', [2]), Reply [11] 20)]"

section \<open>The probing of one level, and the shape of a trace\<close>

lemma probe_all_time_out:
  "all_time_out exch q cs w = Some w1 \<Longrightarrow>
   probe_candidates exch q k cs lg w = Inr (None, lg @ map (timeout_entry k) cs, w1)"
  by (induction cs arbitrary: lg w) (auto split: prod.splits exchange.splits)

lemma probe_first_reply:
  "all_time_out exch q pre w = Some w1 \<Longrightarrow> exch w1 s q = (Reply d t, w2) \<Longrightarrow>
   probe_candidates exch q k (pre @ s # post) lg w =
     Inr (Some (s, d, t), lg @ map (timeout_entry k) pre, w2)"
  by (induction pre arbitrary: lg w) (auto split: prod.splits exchange.splits)

lemma probe_candidates_None:
  "probe_candidates exch q k cs lg w = Inr (None, lg1, w1) \<Longrightarrow>
   all_time_out exch q cs w = Some w1 \<and> lg1 = lg @ map (timeout_entry k) cs"
  by (induction cs arbitrary: lg w) (force split: prod.splits exchange.splits)+

lemma probe_candidates_Some:
  "probe_candidates exch q k cs lg w = Inr (Some (s, d, t), lg1, w1) \<Longrightarrow>
   \<exists>pre post w0. cs = pre @ s # post \<and> all_time_out exch q pre w = Some w0 \<and>
      exch w0 s q = (Reply d t, w1) \<and> lg1 = lg @ map (timeout_entry k) pre"
proof (induction cs arbitrary: lg w)
  case Nil
  then show ?case by simp
next
  case (Cons c cs)
  obtain x w' where x: "exch w c q = (x, w')" by (cases "exch w c q")
  show ?case
  proof (cases x)
    case (Reply d' t')
    with Cons.prems x have "c = s" "d' = d" "t' = t" "lg1 = lg" "w' = w1" by auto
    with x Reply show ?thesis
      by (intro exI[of _ "[]"] exI[of _ cs] exI[of _ w]) simp
  next
    case Timeout
    with Cons.prems x
    have "probe_candidates exch q k cs (lg @ [timeout_entry k c]) w' = Inr (Some (s, d, t), lg1, w1)"
      by simp
    from Cons.IH[OF this] obtain pre post w0 where
      "cs = pre @ s # post" "all_time_out exch q pre w' = Some w0"
      "exch w0 s q = (Reply d t, w1)" "lg1 = (lg @ [timeout_entry k c]) @ map (timeout_entry k) pre"
      by blast
    with x Timeout show ?thesis
      by (intro exI[of _ "c # pre"] exI[of _ post] exI[of _ w0]) simp
  next
    case Failed
    with Cons.prems x show ?thesis by simp
  qed
qed

lemma trace_shape:
  "resolve_iteratively E n w q = Some (Inr ((p, t, nm), w')) \<Longrightarrow> trace_from 1 t"
  "while_loop E n w q k cs lg = Some (Inr ((p, lg'), w')) \<Longrightarrow>
     \<exists>new. lg' = lg @ new \<and> trace_from (Suc k) new"
  "glue_loop E n w names lg acc = Some (Inr ((ips, lg'), w')) \<Longrightarrow>
     \<exists>subs. lg' = lg @ subs \<and> spliced subs"
proof (induction n arbitrary: w q p t nm w' k cs lg lg' names acc ips)
  case 0
  {
    case 1 then show ?case by simp
  next
    case 2 then show ?case by simp
  next
    case 3 then show ?case by simp
  }
next
  case (Suc n)
  note IHr = Suc.IH(1) and IHw = Suc.IH(2) and IHg = Suc.IH(3)
  {
    case 1
    then have "while_loop E n w q 0 ROOT_NS [] = Some (Inr ((p, t), w'))"
      by (auto split: option.splits sum.splits prod.splits)
    from IHw[OF this] show ?case by simp
  next
    case 2
    note h = "2.prems"
    obtain r lg1 w1 where pc: "probe_candidates (udp E) q (Suc k) cs lg w = Inr (r, lg1, w1)"
      using h by (auto split: sum.splits)
    show ?case
    proof (cases r)
      case None
      with pc h have "lg' = lg1" by simp
      moreover from probe_candidates_None[OF pc[unfolded None]]
      have "lg1 = lg @ map (timeout_entry (Suc k)) cs" by simp
      ultimately show ?thesis using all_timed_out by blast
    next
      case (Some sdt)
      obtain s d t where sdt: "sdt = (s, d, t)" by (cases sdt)
      from probe_candidates_Some[OF pc[unfolded Some sdt]] obtain pre where
        lg1: "lg1 = lg @ map (timeout_entry (Suc k)) pre" by blast
      from h pc Some sdt obtain pm where pm: "dns_parse E d = Some pm"
        by (auto split: option.splits)
      define lg2 where "lg2 = lg1 @ [response_entry (Suc k) s t pm]"
      have base: "trace_from (Suc k) (map (timeout_entry (Suc k)) pre @ response_entry (Suc k) s t pm # [] @ [])"
        by (rule responded[OF no_glue_call]) (use all_timed_out[of "Suc (Suc k)" "[]"] in simp)
      consider (ans) "rr pm \<noteq> []"
        | (glue) "rr pm = []" "glue_ips pm \<noteq> []"
        | (nons) "rr pm = []" "glue_ips pm = []" "ns_names pm = []"
        | (names) "rr pm = []" "glue_ips pm = []" "ns_names pm \<noteq> []"
        by blast
      then show ?thesis
      proof cases
        case ans
        with h pc Some sdt pm have "lg' = lg2" by (simp add: lg2_def)
        with base lg1 show ?thesis by (simp add: lg2_def)
      next
        case nons
        with h pc Some sdt pm have "lg' = lg2" by (simp add: lg2_def)
        with base lg1 show ?thesis by (simp add: lg2_def)
      next
        case glue
        with h pc Some sdt pm
        have "while_loop E n w1 q (Suc k) (glue_ips pm) lg2 = Some (Inr ((p, lg'), w'))"
          by (simp add: lg2_def)
        from IHw[OF this] obtain new where new: "lg' = lg2 @ new" "trace_from (Suc (Suc k)) new" by blast
        from responded[OF no_glue_call new(2), where srvs=pre and srv=s and t=t and p=pm] new(1) lg1
        show ?thesis by (simp add: lg2_def)
      next
        case names
        with h pc Some sdt pm obtain ips lg3 w2 where
          g: "glue_loop E n w1 (ns_names pm) lg2 [] = Some (Inr ((ips, lg3), w2))"
          by (auto simp: lg2_def split: option.splits sum.splits)
        from IHg[OF this] obtain subs where subs: "lg3 = lg2 @ subs" "spliced subs" by blast
        show ?thesis
        proof (cases "ips = []")
          case True
          with h pc Some sdt pm names g have "lg' = lg3" by (simp add: lg2_def)
          moreover from responded[OF subs(2) all_timed_out[of "Suc (Suc k)" "[]"], where srvs=pre and srv=s and t=t and p=pm]
          have "trace_from (Suc k) (map (timeout_entry (Suc k)) pre @ response_entry (Suc k) s t pm # subs)"
            by simp
          ultimately show ?thesis using subs(1) lg1 by (simp add: lg2_def)
        next
          case False
          with h pc Some sdt pm names g
          have "while_loop E n w2 q (Suc k) ips lg3 = Some (Inr ((p, lg'), w'))"
            by (simp add: lg2_def)
          from IHw[OF this] obtain new where new: "lg' = lg3 @ new" "trace_from (Suc (Suc k)) new" by blast
          from responded[OF subs(2) new(2), where srvs=pre and srv=s and t=t and p=pm] new(1) subs(1) lg1
          show ?thesis by (simp add: lg2_def)
        qed
      qed
    qed
  next
    case 3
    note h = "3.prems"
    show ?case
    proof (cases names)
      case Nil
      with h show ?thesis using no_glue_call by auto
    next
      case (Cons nm rest)
      from h Cons obtain sub_resp sub_log sub_name w1 where
        r: "resolve_iteratively E n w (dns_question E nm) = Some (Inr ((sub_resp, sub_log, sub_name), w1))"
        by (auto split: option.splits sum.splits)
      from IHr[OF this] have sl: "trace_from 1 sub_log" .
      from h Cons r obtain acc' where
        "glue_loop E n w1 rest (lg @ sub_log) acc' = Some (Inr ((ips, lg'), w'))"
        by (auto split: option.splits if_splits)
      from IHg[OF this] obtain subs where "lg' = (lg @ sub_log) @ subs" "spliced subs" by blast
      with glue_call[OF sl this(2)] show ?thesis by auto
    qed
  }
qed

section \<open>The two sets of functions agree\<close>

text \<open>A run under a recursion limit that ends otherwise than with \<^verbatim>\<open>RecursionError\<close> is,
  result for result, the run on the stack that never overflows: what is proved of
  \<open>resolve_iteratively\<close> holds of the code whenever the stack suffices.\<close>

lemma limit_agrees:
  "resolve_iteratively_at L E n d w q = Some r \<Longrightarrow> r \<noteq> Inl RecursionError \<Longrightarrow>
   resolve_iteratively E n w q = Some r"
  "while_loop_at L E n d w q k cs lg = Some r2 \<Longrightarrow> r2 \<noteq> Inl RecursionError \<Longrightarrow>
   while_loop E n w q k cs lg = Some r2"
  "glue_loop_at L E n d w names lg acc = Some r3 \<Longrightarrow> r3 \<noteq> Inl RecursionError \<Longrightarrow>
   glue_loop E n w names lg acc = Some r3"
proof (induction n arbitrary: d w q r k cs lg r2 names acc r3)
  case 0
  {
    case 1 then show ?case by simp
  next
    case 2 then show ?case by simp
  next
    case 3 then show ?case by simp
  }
next
  case (Suc n)
  note IHr = Suc.IH(1) and IHw = Suc.IH(2) and IHg = Suc.IH(3)
  {
    case 1
    note h = "1.prems"
    from h have d: "\<not> L \<le> d" by (auto split: if_splits)
    show ?case
    proof (cases "dns_parse E q")
      case None
      with h d show ?thesis by simp
    next
      case (Some query)
      with h d obtain x where x: "while_loop_at L E n d w q 0 ROOT_NS [] = Some x"
        by (cases "while_loop_at L E n d w q 0 ROOT_NS []") auto
      with h d Some have "x \<noteq> Inl RecursionError"
        by (auto split: sum.splits)
      from IHw [OF x this] h d Some x show ?thesis by simp
    qed
  next
    case 2
    note h = "2.prems"
    show ?case
    proof (cases "probe_candidates (udp E) q (Suc k) cs lg w")
      case (Inl e)
      with h show ?thesis by simp
    next
      case (Inr res)
      obtain ro lg1 w1 where res: "res = (ro, lg1, w1)" by (cases res)
      show ?thesis
      proof (cases ro)
        case None
        with h Inr res show ?thesis by simp
      next
        case (Some sdt)
        obtain s dd t where sdt: "sdt = (s, dd, t)" by (cases sdt)
        note pc = Inr [unfolded res Some sdt]
        show ?thesis
        proof (cases "dns_parse E dd")
          case None
          with h pc show ?thesis by simp
        next
          case pm: (Some pm)
          define lg2 where "lg2 = lg1 @ [response_entry (Suc k) s t pm]"
          consider (ans) "rr pm \<noteq> []"
            | (glue) "rr pm = []" "glue_ips pm \<noteq> []"
            | (nons) "rr pm = []" "glue_ips pm = []" "ns_names pm = []"
            | (names) "rr pm = []" "glue_ips pm = []" "ns_names pm \<noteq> []"
            by blast
          then show ?thesis
          proof cases
            case ans
            with h pc pm show ?thesis by simp
          next
            case nons
            with h pc pm show ?thesis by simp
          next
            case glue
            with h(1) pc pm
            have "while_loop_at L E n d w1 q (Suc k) (glue_ips pm) lg2 = Some r2"
              by (simp add: lg2_def)
            from IHw [OF this h(2)] glue pc pm show ?thesis by (simp add: lg2_def)
          next
            case names
            from names h(1) pc pm obtain x where
              x: "glue_loop_at L E n d w1 (ns_names pm) lg2 [] = Some x"
              by (cases "glue_loop_at L E n d w1 (ns_names pm) lg2 []") (auto simp: lg2_def)
            with names h pc pm have xr: "x \<noteq> Inl RecursionError"
              by (auto simp: lg2_def split: sum.splits)
            note g = IHg [OF x xr]
            show ?thesis
            proof (cases x)
              case (Inl e)
              with names h(1) pc pm x g show ?thesis by (simp add: lg2_def)
            next
              case (Inr y)
              obtain ips lg3 w2 where y: "y = ((ips, lg3), w2)" by (cases y) auto
              show ?thesis
              proof (cases "ips = []")
                case True
                with names h(1) pc pm x g Inr y show ?thesis by (simp add: lg2_def)
              next
                case False
                with names h(1) pc pm x Inr y
                have "while_loop_at L E n d w2 q (Suc k) ips lg3 = Some r2"
                  by (simp add: lg2_def)
                from IHw [OF this h(2)] False names pc pm g Inr y show ?thesis
                  by (simp add: lg2_def)
              qed
            qed
          qed
        qed
      qed
    qed
  next
    case 3
    note h = "3.prems"
    show ?case
    proof (cases names)
      case Nil
      with h show ?thesis by simp
    next
      case (Cons nm rest)
      from h(1) Cons obtain x where
        x: "resolve_iteratively_at L E n (Suc d) w (dns_question E nm) = Some x"
        by (cases "resolve_iteratively_at L E n (Suc d) w (dns_question E nm)") auto
      with h Cons have xr: "x \<noteq> Inl RecursionError" by (auto split: sum.splits)
      note rs = IHr [OF x xr]
      show ?thesis
      proof (cases x)
        case (Inl e)
        with h(1) Cons x rs show ?thesis by simp
      next
        case (Inr y)
        obtain sub_resp sub_log sub_name w1 where y: "y = ((sub_resp, sub_log, sub_name), w1)"
          by (cases y) auto
        consider (failed) "sub_resp = None" | (empty) "sub_resp = Some []"
          | (bad) dd where "sub_resp = Some dd" "dd \<noteq> []" "dns_parse E dd = None"
          | (resolved) dd p where "sub_resp = Some dd" "dd \<noteq> []" "dns_parse E dd = Some p"
          by (cases sub_resp; cases "dns_parse E (the sub_resp)") auto
        then show ?thesis
        proof cases
          case failed
          with h(1) Cons x Inr y
          have "glue_loop_at L E n d w1 rest (lg @ sub_log) acc = Some r3" by simp
          from IHg [OF this h(2)] failed Cons rs Inr y show ?thesis by simp
        next
          case empty
          with h(1) Cons x Inr y
          have "glue_loop_at L E n d w1 rest (lg @ sub_log) acc = Some r3" by simp
          from IHg [OF this h(2)] empty Cons rs Inr y show ?thesis by simp
        next
          case bad
          with h(1) Cons x Inr y rs show ?thesis by simp
        next
          case resolved
          with h(1) Cons x Inr y
          have "glue_loop_at L E n d w1 rest (lg @ sub_log) (acc @ a_addresses (rr p)) = Some r3"
            by simp
          from IHg [OF this h(2)] resolved Cons rs Inr y show ?thesis by simp
        qed
      qed
    qed
  }
qed

section \<open>The fixtures, run\<close>

lemma glueless_run:
  "resolve_iteratively glueless_env 10 [] [1] =
     Some (Inr ((Some [14], glueless_trace, ''www.example.com.''),
       [''198.41.0.4'', ''199.9.14.201'', ''198.41.0.4'', ''199.9.14.201'',
        ''192.0.2.1'', ''192.0.2.53'']))"
  by code_simp

lemma dead_run:
  "resolve_iteratively dead_env 2 [] [1] =
     Some (Inr ((None, map (timeout_entry 1) ROOT_NS, ''www.example.com.''), ROOT_NS))"
  by code_simp

lemma root_referral_glueless_facts:
  "rr root_referral_glueless = []"
  "glue_ips root_referral_glueless = []"
  "ns_names root_referral_glueless = [''a.gtld.example.'']"
  by (simp_all add: root_referral_glueless_def glue_ips_def ns_names_def a_addresses_def)

section \<open>C1: step indices\<close>

text \<open>
  C1, as amended. The step index of an entry is the number of the delegation level
  within the call of \<^verbatim>\<open>resolve_iteratively\<close> that appended it, not a position in the
  trace. The trace a call returns has the shape \<open>trace_from 1\<close>: the levels of a call are
  numbered 1, 2, 3 and so on, in steps of exactly one; the entries of one level, one
  for each candidate that timed out and then the reply's, all carry the level's
  index; the entries of a nested glue resolution lie in causal order between the
  reply that started it and the next level, and are numbered from 1 again.
\<close>

theorem step_indices_count_levels:
  "resolve_iteratively E n w query_bytes = Some (Inr ((payload, t, nm), w')) \<Longrightarrow>
   trace_from 1 t"
  by (rule trace_shape(1))

theorem step_indices_count_levels_witness:
  "resolve_iteratively glueless_env 10 [] [1] =
     Some (Inr ((Some [14], glueless_trace, ''www.example.com.''),
       [''198.41.0.4'', ''199.9.14.201'', ''198.41.0.4'', ''199.9.14.201'',
        ''192.0.2.1'', ''192.0.2.53''])) \<and>
   trace_from 1 glueless_trace"
  using step_indices_count_levels [OF glueless_run] glueless_run by simp

text \<open>
  C1 as stated fails. With the first root server down and a referral without glue,
  the six entries of the trace carry the indices 1, 1, 1, 1, 2, 3: they repeat, and
  the nested resolution starts from 1 again.
\<close>

theorem step_indices_not_global:
  "resolve_iteratively glueless_env 10 [] [1] =
     Some (Inr ((Some [14], glueless_trace, ''www.example.com.''),
       [''198.41.0.4'', ''199.9.14.201'', ''198.41.0.4'', ''199.9.14.201'',
        ''192.0.2.1'', ''192.0.2.53''])) \<and>
   map step glueless_trace = [1, 1, 1, 1, 2, 3] \<and>
   \<not> numbered_globally glueless_trace \<and>
   \<not> distinct (map step glueless_trace)"
proof -
  have "map step glueless_trace = [1, 1, 1, 1, 2, 3]"
    by (simp add: glueless_trace_def timeout_entry_def response_entry_def)
  moreover from this have "\<not> numbered_globally glueless_trace"
    by (simp add: numbered_globally_def glueless_trace_def upt_rec)
  moreover from \<open>map step glueless_trace = [1, 1, 1, 1, 2, 3]\<close>
  have "\<not> distinct (map step glueless_trace)" by simp
  ultimately show ?thesis using glueless_run by simp
qed

section \<open>C2: a reply that does not parse\<close>

text \<open>
  C2, as amended. When the reply of a candidate fails to parse, the parse error leaves
  \<^verbatim>\<open>resolve_iteratively\<close> as an exception: the call returns neither a payload nor a trace,
  so no entry is made for the reply, and no further candidate is tried. This holds at
  every level; from the root level, and from a nested resolution through the loop over
  the name servers, the exception goes on to the caller.
\<close>

theorem malformed_reply_raises:
  "all_time_out (udp E) qb pre w = Some w0 \<Longrightarrow> udp E w0 srv qb = (Reply d t, w1) \<Longrightarrow>
   dns_parse E d = None \<Longrightarrow>
   while_loop E (Suc n) w qb k (pre @ srv # post) lg = Some (Inl DNSError) \<and>
   (pre @ srv # post = ROOT_NS \<and> dns_parse E qb \<noteq> None \<longrightarrow>
      resolve_iteratively E (Suc (Suc n)) w qb = Some (Inl DNSError)) \<and>
   (pre @ srv # post = ROOT_NS \<and> dns_parse E qb \<noteq> None \<and> dns_question E nm = qb \<longrightarrow>
      glue_loop E (Suc (Suc (Suc n))) w (nm # names) lg acc = Some (Inl DNSError))"
proof -
  assume a: "all_time_out (udp E) qb pre w = Some w0"
    and b: "udp E w0 srv qb = (Reply d t, w1)" and c: "dns_parse E d = None"
  have level: "while_loop E (Suc m) w qb j (pre @ srv # post) l = Some (Inl DNSError)" for m j l
    using probe_first_reply [OF a b, of "Suc j" post l] c by simp
  have top: "resolve_iteratively E (Suc (Suc m)) w qb = Some (Inl DNSError)"
    if "pre @ srv # post = ROOT_NS" "dns_parse E qb \<noteq> None" for m
    using level [of m 0 "[]"] that by auto
  have nested: "glue_loop E (Suc (Suc (Suc n))) w (nm # names) lg acc = Some (Inl DNSError)"
    if "pre @ srv # post = ROOT_NS" "dns_parse E qb \<noteq> None" "dns_question E nm = qb"
    using top [of n] that by simp
  from level top nested show ?thesis by blast
qed

theorem malformed_reply_raises_witness:
  "all_time_out (udp malformed_env) [1] [] [] = Some [] \<and>
   udp malformed_env [] ''198.41.0.4'' [1] = (Reply [255] 5, [''198.41.0.4'']) \<and>
   dns_parse malformed_env [255] = None \<and>
   while_loop malformed_env (Suc 0) [] [1] 0 ROOT_NS [] = Some (Inl DNSError) \<and>
   resolve_iteratively malformed_env (Suc (Suc 0)) [] [1] = Some (Inl DNSError)"
proof -
  have a: "all_time_out (udp malformed_env) [1] [] [] = Some []"
    and b: "udp malformed_env [] ''198.41.0.4'' [1] = (Reply [255] 5, [''198.41.0.4''])"
    and c: "dns_parse malformed_env [255] = None"
    and q: "dns_parse malformed_env [1] \<noteq> None"
    by (simp_all add: malformed_env_def fixture_def messages_def)
  from malformed_reply_raises [OF a b c, of 0 0 "[''199.9.14.201'', ''192.33.4.12'']" "[]"] q
  have "while_loop malformed_env (Suc 0) [] [1] 0 ROOT_NS [] = Some (Inl DNSError)"
    and "resolve_iteratively malformed_env (Suc (Suc 0)) [] [1] = Some (Inl DNSError)"
    by (simp_all add: ROOT_NS_def)
  with a b c show ?thesis by simp
qed

text \<open>
  C2 as stated fails. The first root server replies with a datagram that does not
  parse, and the second would answer. Had the first timed out, the resolution would
  have gone on to the second and returned its answer; on the malformed reply it raises
  instead, and the second server is never asked.
\<close>

theorem malformed_reply_not_like_timeout:
  "udp malformed_env [] ''198.41.0.4'' [1] = (Reply [255] 5, [''198.41.0.4'']) \<and>
   dns_parse malformed_env [255] = None \<and>
   udp malformed_env [''198.41.0.4''] ''199.9.14.201'' [1] =
     (Reply [14] 9, [''198.41.0.4'', ''199.9.14.201'']) \<and>
   resolve_iteratively malformed_env 3 [] [1] = Some (Inl DNSError) \<and>
   udp timeout_twin_env [] ''198.41.0.4'' [1] = (Timeout, [''198.41.0.4'']) \<and>
   resolve_iteratively timeout_twin_env 3 [] [1] =
     Some (Inr ((Some [14],
                 [timeout_entry 1 ''198.41.0.4'',
                  response_entry 1 ''199.9.14.201'' 9 www_answer],
                 ''www.example.com.''),
                [''198.41.0.4'', ''199.9.14.201''])) \<and>
   resolve_iteratively malformed_env 3 [] [1] \<noteq> resolve_iteratively timeout_twin_env 3 [] [1]"
proof -
  have 1: "resolve_iteratively malformed_env 3 [] [1] = Some (Inl DNSError)"
    by code_simp
  have 2: "resolve_iteratively timeout_twin_env 3 [] [1] =
     Some (Inr ((Some [14],
                 [timeout_entry 1 ''198.41.0.4'',
                  response_entry 1 ''199.9.14.201'' 9 www_answer],
                 ''www.example.com.''),
                [''198.41.0.4'', ''199.9.14.201'']))"
    by code_simp
  have 3: "udp malformed_env [] ''198.41.0.4'' [1] = (Reply [255] 5, [''198.41.0.4''])"
    "dns_parse malformed_env [255] = None"
    "udp malformed_env [''198.41.0.4''] ''199.9.14.201'' [1] =
       (Reply [14] 9, [''198.41.0.4'', ''199.9.14.201''])"
    "udp timeout_twin_env [] ''198.41.0.4'' [1] = (Timeout, [''198.41.0.4''])"
    by (simp_all add: malformed_env_def timeout_twin_env_def fixture_def messages_def)
  from 1 2 3 show ?thesis by simp
qed

section \<open>C3: a delegation cycle\<close>

lemma cycle_env_facts:
  "dns_parse cycle_env [1] = Some query_www"
  "dns_parse cycle_env [2] = Some query_ns"
  "dns_parse cycle_env [11] = Some root_referral_glueless"
  "dns_question cycle_env ''a.gtld.example.'' = [2]"
  "udp cycle_env w ''198.41.0.4'' [1] = (Reply [11] 20, w @ [''198.41.0.4''])"
  "udp cycle_env w ''198.41.0.4'' [2] = (Reply [11] 20, w @ [''198.41.0.4''])"
  by (simp_all add: cycle_env_def fixture_def messages_def questions_def)

lemma cycle_never_returns:
  "resolve_iteratively cycle_env n w [1] = None"
  "resolve_iteratively cycle_env n w [2] = None"
  "while_loop cycle_env n w [1] k ROOT_NS lg = None"
  "while_loop cycle_env n w [2] k ROOT_NS lg = None"
  "glue_loop cycle_env n w [''a.gtld.example.''] lg acc = None"
proof (induction n arbitrary: w k lg acc)
  case 0
  {
    case 1 show ?case by simp
  next
    case 2 show ?case by simp
  next
    case 3 show ?case by simp
  next
    case 4 show ?case by simp
  next
    case 5 show ?case by simp
  }
next
  case (Suc n)
  {
    case 1 show ?case by (simp add: cycle_env_facts Suc.IH(3))
  next
    case 2 show ?case by (simp add: cycle_env_facts Suc.IH(4))
  next
    case 3 show ?case
      by (simp add: ROOT_NS_def cycle_env_facts root_referral_glueless_facts Suc.IH(5))
  next
    case 4 show ?case
      by (simp add: ROOT_NS_def cycle_env_facts root_referral_glueless_facts Suc.IH(5))
  next
    case 5 show ?case by (simp add: cycle_env_facts Suc.IH(2))
  }
qed

text \<open>Under a recursion limit, one level of the cycle: three calls of the model further
  down, the next activation is one level deeper, and what it ends with, a cut by the
  fuel or an exception, is what the activation above it ends with.\<close>

lemma cycle_step_raise:
  assumes d: "\<not> L \<le> d" and q: "q = [1] \<or> q = [2]"
    and x: "resolve_iteratively_at L cycle_env n (Suc d) (w @ [''198.41.0.4'']) [2] =
      Some (Inl e)"
  shows "resolve_iteratively_at L cycle_env (Suc (Suc (Suc n))) d w q = Some (Inl e)"
proof -
  have g: "glue_loop_at L cycle_env (Suc n) d (w @ [''198.41.0.4'']) [''a.gtld.example.'']
      lg acc = Some (Inl e)" for lg acc
    by (subst glue_loop_at.simps(3))
       (simp add: cycle_env_facts x
          del: resolve_iteratively_at.simps while_loop_at.simps glue_loop_at.simps)
  have wl: "while_loop_at L cycle_env (Suc (Suc n)) d w q 0 ROOT_NS [] = Some (Inl e)"
    using q
    by (subst while_loop_at.simps(2))
       (auto simp add: ROOT_NS_def cycle_env_facts root_referral_glueless_facts g
          simp del: resolve_iteratively_at.simps while_loop_at.simps glue_loop_at.simps)
  show ?thesis
    using d q wl
    by (subst resolve_iteratively_at.simps(2))
       (auto simp add: cycle_env_facts
          simp del: resolve_iteratively_at.simps while_loop_at.simps glue_loop_at.simps)
qed

lemma cycle_step_none:
  assumes d: "\<not> L \<le> d" and q: "q = [1] \<or> q = [2]"
    and x: "resolve_iteratively_at L cycle_env n (Suc d) (w @ [''198.41.0.4'']) [2] = None"
  shows "resolve_iteratively_at L cycle_env (Suc (Suc (Suc n))) d w q = None"
proof -
  have g: "glue_loop_at L cycle_env (Suc n) d (w @ [''198.41.0.4'']) [''a.gtld.example.'']
      lg acc = None" for lg acc
    by (subst glue_loop_at.simps(3))
       (simp add: cycle_env_facts x
          del: resolve_iteratively_at.simps while_loop_at.simps glue_loop_at.simps)
  have wl: "while_loop_at L cycle_env (Suc (Suc n)) d w q 0 ROOT_NS [] = None"
    using q
    by (subst while_loop_at.simps(2))
       (auto simp add: ROOT_NS_def cycle_env_facts root_referral_glueless_facts g
          simp del: resolve_iteratively_at.simps while_loop_at.simps glue_loop_at.simps)
  show ?thesis
    using d q wl
    by (subst resolve_iteratively_at.simps(2))
       (auto simp add: cycle_env_facts
          simp del: resolve_iteratively_at.simps while_loop_at.simps glue_loop_at.simps)
qed

lemma cycle_short:
  assumes d: "\<not> L \<le> d" and q: "q = [1] \<or> q = [2]" and n: "n < 3"
  shows "resolve_iteratively_at L cycle_env n d w q = None"
proof -
  from n consider "n = 0" | "n = Suc 0" | "n = Suc (Suc 0)" by linarith
  then show ?thesis
  proof cases
    case 1
    then show ?thesis by simp
  next
    case 2
    with d q show ?thesis by (auto simp add: cycle_env_facts)
  next
    case 3
    with d q show ?thesis
      by (auto simp add: ROOT_NS_def cycle_env_facts root_referral_glueless_facts)
  qed
qed

lemma cycle_hits_limit:
  "d + k = L \<Longrightarrow> q = [1] \<or> q = [2] \<Longrightarrow>
   resolve_iteratively_at L cycle_env (3 * k + 1 + m) d w q = Some (Inl RecursionError)"
proof (induction k arbitrary: d w q)
  case 0
  then show ?case by simp
next
  case (Suc k)
  from Suc.prems have d: "\<not> L \<le> d" and d': "Suc d + k = L" by simp_all
  have fuel: "3 * Suc k + 1 + m = Suc (Suc (Suc (3 * k + 1 + m)))" by simp
  have "resolve_iteratively_at L cycle_env (3 * k + 1 + m) (Suc d) (w @ [''198.41.0.4'']) [2] =
      Some (Inl RecursionError)"
    by (rule Suc.IH [OF d']) simp
  from cycle_step_raise [OF d Suc.prems(2) this] show ?case
    unfolding fuel .
qed

lemma cycle_needs_depth:
  "d + k = L \<Longrightarrow> q = [1] \<or> q = [2] \<Longrightarrow> n \<le> 3 * k \<Longrightarrow>
   resolve_iteratively_at L cycle_env n d w q = None"
proof (induction k arbitrary: d w q n)
  case 0
  then show ?case by simp
next
  case (Suc k)
  from Suc.prems have d: "\<not> L \<le> d" and d': "Suc d + k = L" by simp_all
  show ?case
  proof (cases "n < 3")
    case True
    from cycle_short [OF d Suc.prems(2) True] show ?thesis .
  next
    case False
    then obtain n3 where n: "n = Suc (Suc (Suc n3))"
      by (cases n; cases "n - 1"; cases "n - 2") auto
    with Suc.prems(3) have "n3 \<le> 3 * k" by simp
    from Suc.IH [OF d' _ this, of "[2]" "w @ [''198.41.0.4'']"]
    have "resolve_iteratively_at L cycle_env n3 (Suc d) (w @ [''198.41.0.4'']) [2] = None"
      by simp
    from cycle_step_none [OF d Suc.prems(2) this] show ?thesis
      unfolding n .
  qed
qed

text \<open>
  C3, as amended. The code has no bound on the depth of the nested resolutions and
  keeps no set of the names under resolution: in the fixture \<open>cycle_env\<close>, where the root
  refers every query to the name server \<^verbatim>\<open>a.gtld.example.\<close> without glue, also the query
  for that name itself, the call would never return on a stack that never overflows.
  The recursion is ended by the interpreter alone. Whatever its limit, the nested calls
  go on until the limit is reached (with less fuel than three calls for each level
  below the limit the run is still under way), and \<^verbatim>\<open>resolve_iteratively\<close> then ends
  by raising \<^verbatim>\<open>RecursionError\<close> to its caller, not by returning a failure.
\<close>

theorem delegation_cycle_ends_at_recursion_limit:
  "(\<forall>n. resolve_iteratively cycle_env n [] [1] = None) \<and>
   resolve_iteratively_at limit cycle_env (3 * limit + 1 + m) 0 [] [1] =
     Some (Inl RecursionError) \<and>
   (n \<le> 3 * limit \<longrightarrow> resolve_iteratively_at limit cycle_env n 0 [] [1] = None)"
  using cycle_hits_limit [of 0 limit limit "[1]" m "[]"]
    cycle_needs_depth [of 0 limit limit "[1]" n "[]"]
  by (simp add: cycle_never_returns(1))

theorem delegation_cycle_ends_at_recursion_limit_witness:
  "(\<forall>n. resolve_iteratively cycle_env n [] [1] = None) \<and>
   resolve_iteratively_at 2 cycle_env 7 0 [] [1] = Some (Inl RecursionError) \<and>
   (6::nat) \<le> 3 * 2 \<and> resolve_iteratively_at 2 cycle_env 6 0 [] [1] = None"
  using delegation_cycle_ends_at_recursion_limit [of 2 0 6] by simp

text \<open>
  C3 as stated fails on the delegation cycle itself: the recursion does terminate.
  With room for 990 activations on the stack, the call on \<open>cycle_env\<close> ends with
  \<^verbatim>\<open>RecursionError\<close>, which \<^verbatim>\<open>run_server\<close> catches at line 152.
\<close>

theorem delegation_cycle_raises_recursion_error:
  "resolve_iteratively_at 990 cycle_env 2971 0 [] [1] = Some (Inl RecursionError)"
  using cycle_hits_limit [of 0 990 990 "[1]" 0 "[]"] by simp

section \<open>C4: when every candidate times out\<close>

text \<open>
  C4. At every level the candidates are tried in list order and the first reply
  ends the probing: when the candidates \<open>pre\<close> time out one after the other and \<open>srv\<close>
  replies, the level's result is that reply, with one timeout entry for each of \<open>pre\<close>,
  in the world right after the exchange with \<open>srv\<close>; the candidates \<open>post\<close> behind it are
  not contacted. When all candidates \<open>cs\<close> of a level time out, the loop returns no
  payload and the timeline it had, followed by exactly one entry for each candidate,
  each with the round-trip time null. At the root level this is the whole trace.
\<close>

theorem all_candidates_time_out:
  "(all_time_out (udp E) qb pre w = Some w0 \<and> udp E w0 srv qb = (Reply d t, w1) \<longrightarrow>
      probe_candidates (udp E) qb k (pre @ srv # post) lg w =
        Inr (Some (srv, d, t), lg @ map (timeout_entry k) pre, w1)) \<and>
   (all_time_out (udp E) qb cs w = Some w2 \<longrightarrow>
      while_loop E (Suc n) w qb k cs lg =
        Some (Inr ((None, lg @ map (timeout_entry (Suc k)) cs), w2)) \<and>
      length (map (timeout_entry (Suc k)) cs) = length cs \<and>
      list_all (\<lambda>e. rtt e = None) (map (timeout_entry (Suc k)) cs)) \<and>
   (dns_parse E qb = Some query \<and> all_time_out (udp E) qb ROOT_NS w = Some w3 \<longrightarrow>
      resolve_iteratively E (Suc (Suc n)) w qb =
        Some (Inr ((None, map (timeout_entry 1) ROOT_NS, qname query), w3)))"
proof (intro conjI impI)
  assume "all_time_out (udp E) qb pre w = Some w0 \<and> udp E w0 srv qb = (Reply d t, w1)"
  then show "probe_candidates (udp E) qb k (pre @ srv # post) lg w =
      Inr (Some (srv, d, t), lg @ map (timeout_entry k) pre, w1)"
    by (simp add: probe_first_reply)
next
  assume "all_time_out (udp E) qb cs w = Some w2"
  from probe_all_time_out [OF this]
  show "while_loop E (Suc n) w qb k cs lg =
      Some (Inr ((None, lg @ map (timeout_entry (Suc k)) cs), w2))"
    by simp
next
  show "length (map (timeout_entry (Suc k)) cs) = length cs" by simp
next
  show "list_all (\<lambda>e. rtt e = None) (map (timeout_entry (Suc k)) cs)"
    by (simp add: list_all_iff timeout_entry_def)
next
  assume "dns_parse E qb = Some query \<and> all_time_out (udp E) qb ROOT_NS w = Some w3"
  then have q: "dns_parse E qb = Some query"
    and a: "all_time_out (udp E) qb ROOT_NS w = Some w3" by simp_all
  from probe_all_time_out [OF a, of "Suc 0" "[]"] q
  show "resolve_iteratively E (Suc (Suc n)) w qb =
      Some (Inr ((None, map (timeout_entry 1) ROOT_NS, qname query), w3))"
    by simp
qed

theorem all_candidates_time_out_witness:
  "(all_time_out (udp glueless_env) [1] [''198.41.0.4''] [] = Some [''198.41.0.4''] \<and>
    udp glueless_env [''198.41.0.4''] ''199.9.14.201'' [1] =
      (Reply [11] 20, [''198.41.0.4'', ''199.9.14.201'']) \<and>
    probe_candidates (udp glueless_env) [1] 1 ROOT_NS [] [] =
      Inr (Some (''199.9.14.201'', [11], 20), [timeout_entry 1 ''198.41.0.4''],
           [''198.41.0.4'', ''199.9.14.201''])) \<and>
   (all_time_out (udp dead_env) [1] ROOT_NS [] = Some ROOT_NS \<and>
    while_loop dead_env (Suc 0) [] [1] 0 ROOT_NS [] =
      Some (Inr ((None, map (timeout_entry 1) ROOT_NS), ROOT_NS)) \<and>
    dns_parse dead_env [1] = Some query_www \<and>
    resolve_iteratively dead_env (Suc (Suc 0)) [] [1] =
      Some (Inr ((None, map (timeout_entry 1) ROOT_NS, ''www.example.com.''), ROOT_NS)))"
proof -
  have a: "all_time_out (udp glueless_env) [1] [''198.41.0.4''] [] = Some [''198.41.0.4'']"
    and b: "udp glueless_env [''198.41.0.4''] ''199.9.14.201'' [1] =
      (Reply [11] 20, [''198.41.0.4'', ''199.9.14.201''])"
    by (simp_all add: glueless_env_def fixture_def)
  have c: "all_time_out (udp dead_env) [1] ROOT_NS [] = Some ROOT_NS"
    and q: "dns_parse dead_env [1] = Some query_www"
    by (simp_all add: dead_env_def fixture_def ROOT_NS_def messages_def)
  from all_candidates_time_out
    [of glueless_env "[1]" "[''198.41.0.4'']" "[]" "[''198.41.0.4'']" "''199.9.14.201''"
        "[11]" 20 "[''198.41.0.4'', ''199.9.14.201'']" 1 "[''192.33.4.12'']" "[]"]
    a b
  have 1: "probe_candidates (udp glueless_env) [1] 1 ROOT_NS [] [] =
      Inr (Some (''199.9.14.201'', [11], 20), [timeout_entry 1 ''198.41.0.4''],
           [''198.41.0.4'', ''199.9.14.201''])"
    by (simp add: ROOT_NS_def)
  from all_candidates_time_out
    [of dead_env "[1]" _ "[]" _ _ _ _ _ _ _ _ ROOT_NS ROOT_NS 0 query_www ROOT_NS] c q
  have 2: "while_loop dead_env (Suc 0) [] [1] 0 ROOT_NS [] =
      Some (Inr ((None, map (timeout_entry 1) ROOT_NS), ROOT_NS))"
    and 3: "resolve_iteratively dead_env (Suc (Suc 0)) [] [1] =
      Some (Inr ((None, map (timeout_entry 1) ROOT_NS, ''www.example.com.''), ROOT_NS))"
    by (simp_all add: query_www_def)
  from a b c q 1 2 3 show ?thesis by simp
qed

section \<open>C5: the next candidates\<close>

lemma glue_loop_collects:
  "glue_loop E n w names lg acc = Some (Inr ((ips, lg'), w')) \<Longrightarrow>
   \<exists>new logs. ips = acc @ new \<and> lg' = lg @ logs \<and> collects E w names new logs w'"
proof (induction n arbitrary: w names lg acc)
  case 0
  then show ?case by simp
next
  case (Suc n)
  note h = Suc.prems
  show ?case
  proof (cases names)
    case Nil
    with h show ?thesis using no_more_names [of E w] by auto
  next
    case (Cons nm rest)
    from h Cons obtain sub_resp sub_log x w1 where
      r: "resolve_iteratively E n w (dns_question E nm) = Some (Inr ((sub_resp, sub_log, x), w1))"
      by (auto split: option.splits sum.splits)
    consider (failed) "sub_resp = None" | (empty) "sub_resp = Some []"
      | (resolved) d where "sub_resp = Some d" "d \<noteq> []"
      by (cases sub_resp) auto
    then show ?thesis
    proof cases
      case failed
      with h Cons r
      have "glue_loop E n w1 rest (lg @ sub_log) acc = Some (Inr ((ips, lg'), w'))" by simp
      from Suc.IH [OF this] obtain new logs where
        "ips = acc @ new" "lg' = (lg @ sub_log) @ logs" "collects E w1 rest new logs w'"
        by blast
      with skip_failed [OF r [unfolded failed]] Cons show ?thesis by auto
    next
      case empty
      with h Cons r
      have "glue_loop E n w1 rest (lg @ sub_log) acc = Some (Inr ((ips, lg'), w'))" by simp
      from Suc.IH [OF this] obtain new logs where
        "ips = acc @ new" "lg' = (lg @ sub_log) @ logs" "collects E w1 rest new logs w'"
        by blast
      with skip_empty [OF r [unfolded empty]] Cons show ?thesis by auto
    next
      case resolved
      with h Cons r obtain p where p: "dns_parse E d = Some p"
        by (auto split: option.splits)
      with h Cons r resolved
      have "glue_loop E n w1 rest (lg @ sub_log) (acc @ a_addresses (rr p)) =
          Some (Inr ((ips, lg'), w'))" by simp
      from Suc.IH [OF this] obtain new logs where
        *: "ips = (acc @ a_addresses (rr p)) @ new" "lg' = (lg @ sub_log) @ logs"
        "collects E w1 rest new logs w'"
        by blast
      from merge_resolved [OF r [unfolded resolved(1)] resolved(2) p *(3)] * Cons
      show ?thesis by auto
    qed
  qed
qed

text \<open>
  C5. At a level where the candidates \<open>pre\<close> time out and \<open>srv\<close> replies with a message
  \<open>parsed\<close> that has no answer record, let \<open>lg2\<close> be the timeline with the entries of the
  level. Then:
  \<^item> if the additional section has addresses, the loop goes on with exactly these as
    candidates, and no nested resolution is made;
  \<^item> if it has none and the authority section names no server, the resolution ends
    without payload;
  \<^item> if it has none and the authority section names servers, the names are resolved by
    nested calls, and the resolution ends without payload when they give no address,
    and goes on with the addresses they give otherwise;
  \<^item> what the nested calls give is what \<open>collects\<close> describes: each name in order, a
    name that fails to resolve skipped, the addresses of the others merged.
\<close>

theorem next_candidates_from_referral:
  assumes "all_time_out (udp E) qb pre w = Some w0"
    and "udp E w0 srv qb = (Reply d t, w1)"
    and "dns_parse E d = Some parsed" and "rr parsed = []"
  shows
    "(let lg2 = lg @ map (timeout_entry (Suc k)) pre @ [response_entry (Suc k) srv t parsed] in
      (glue_ips parsed \<noteq> [] \<longrightarrow>
         while_loop E (Suc n) w qb k (pre @ srv # post) lg =
           while_loop E n w1 qb (Suc k) (glue_ips parsed) lg2) \<and>
      (glue_ips parsed = [] \<and> ns_names parsed = [] \<longrightarrow>
         while_loop E (Suc n) w qb k (pre @ srv # post) lg = Some (Inr ((None, lg2), w1))) \<and>
      (glue_ips parsed = [] \<and> ns_names parsed \<noteq> [] \<longrightarrow>
         while_loop E (Suc n) w qb k (pre @ srv # post) lg =
           (case glue_loop E n w1 (ns_names parsed) lg2 [] of
              None \<Rightarrow> None
            | Some (Inl e) \<Rightarrow> Some (Inl e)
            | Some (Inr ((ips, lg3), w2)) \<Rightarrow>
                if ips = [] then Some (Inr ((None, lg3), w2))
                else while_loop E n w2 qb (Suc k) ips lg3)) \<and>
      (\<forall>ips lg3 w2.
         glue_loop E n w1 (ns_names parsed) lg2 [] = Some (Inr ((ips, lg3), w2)) \<longrightarrow>
         (\<exists>logs. lg3 = lg2 @ logs \<and> collects E w1 (ns_names parsed) ips logs w2)))"
proof -
  define lg2 where
    "lg2 = lg @ map (timeout_entry (Suc k)) pre @ [response_entry (Suc k) srv t parsed]"
  note pc = probe_first_reply [OF assms(1,2), of "Suc k" post lg]
  have 1: "while_loop E (Suc n) w qb k (pre @ srv # post) lg =
      while_loop E n w1 qb (Suc k) (glue_ips parsed) lg2" if "glue_ips parsed \<noteq> []"
    by (subst while_loop.simps(2))
       (simp add: pc assms(3,4) that lg2_def del: while_loop.simps)
  have 2: "while_loop E (Suc n) w qb k (pre @ srv # post) lg = Some (Inr ((None, lg2), w1))"
    if "glue_ips parsed = []" "ns_names parsed = []"
    by (subst while_loop.simps(2))
       (simp add: pc assms(3,4) that lg2_def del: while_loop.simps)
  have 3: "while_loop E (Suc n) w qb k (pre @ srv # post) lg =
      (case glue_loop E n w1 (ns_names parsed) lg2 [] of
         None \<Rightarrow> None
       | Some (Inl e) \<Rightarrow> Some (Inl e)
       | Some (Inr ((ips, lg3), w2)) \<Rightarrow>
           if ips = [] then Some (Inr ((None, lg3), w2))
           else while_loop E n w2 qb (Suc k) ips lg3)"
    if "glue_ips parsed = []" "ns_names parsed \<noteq> []"
    by (subst while_loop.simps(2))
       (simp add: pc assms(3,4) that lg2_def del: while_loop.simps glue_loop.simps)
  have 4: "\<exists>logs. lg3 = lg2 @ logs \<and> collects E w1 (ns_names parsed) ips logs w2"
    if "glue_loop E n w1 (ns_names parsed) lg2 [] = Some (Inr ((ips, lg3), w2))" for ips lg3 w2
    using glue_loop_collects [OF that] by simp
  from 1 2 3 4 show ?thesis
    unfolding Let_def lg2_def [symmetric] by blast
qed

theorem next_candidates_from_referral_witness:
  "all_time_out (udp three_level_env) [1] [] [] = Some [] \<and>
   udp three_level_env [] ''198.41.0.4'' [1] = (Reply [15] 20, [''198.41.0.4'']) \<and>
   dns_parse three_level_env [15] = Some root_referral_glued \<and>
   rr root_referral_glued = [] \<and> glue_ips root_referral_glued = [''192.0.2.1''] \<and>
   while_loop three_level_env (Suc 2) [] [1] 0 ROOT_NS [] =
     while_loop three_level_env 2 [''198.41.0.4''] [1] (Suc 0) [''192.0.2.1'']
       [response_entry (Suc 0) ''198.41.0.4'' 20 root_referral_glued] \<and>
   all_time_out (udp glueless_env) [1] [''198.41.0.4''] [] = Some [''198.41.0.4''] \<and>
   udp glueless_env [''198.41.0.4''] ''199.9.14.201'' [1] =
     (Reply [11] 20, [''198.41.0.4'', ''199.9.14.201'']) \<and>
   dns_parse glueless_env [11] = Some root_referral_glueless \<and>
   rr root_referral_glueless = [] \<and> glue_ips root_referral_glueless = [] \<and>
   ns_names root_referral_glueless = [''a.gtld.example.''] \<and>
   glue_loop glueless_env 8 [''198.41.0.4'', ''199.9.14.201''] [''a.gtld.example.'']
       (take 2 glueless_trace) [] =
     Some (Inr (([''192.0.2.1''], take 4 glueless_trace),
                [''198.41.0.4'', ''199.9.14.201'', ''198.41.0.4'', ''199.9.14.201''])) \<and>
   (\<exists>logs. take 4 glueless_trace = take 2 glueless_trace @ logs \<and>
      collects glueless_env [''198.41.0.4'', ''199.9.14.201''] [''a.gtld.example.'']
        [''192.0.2.1''] logs
        [''198.41.0.4'', ''199.9.14.201'', ''198.41.0.4'', ''199.9.14.201'']) \<and>
   while_loop glueless_env (Suc 8) [] [1] 0 ROOT_NS [] =
     while_loop glueless_env 8
       [''198.41.0.4'', ''199.9.14.201'', ''198.41.0.4'', ''199.9.14.201''] [1] (Suc 0)
       [''192.0.2.1''] (take 4 glueless_trace)"
proof -
  have a1: "all_time_out (udp three_level_env) [1] [] [] = Some []"
    and b1: "udp three_level_env [] ''198.41.0.4'' [1] = (Reply [15] 20, [''198.41.0.4''])"
    and c1: "dns_parse three_level_env [15] = Some root_referral_glued"
    by (simp_all add: three_level_env_def fixture_def messages_def)
  have d1: "rr root_referral_glued = []" and e1: "glue_ips root_referral_glued = [''192.0.2.1'']"
    by (simp_all add: root_referral_glued_def glue_ips_def a_addresses_def)
  have a2: "all_time_out (udp glueless_env) [1] [''198.41.0.4''] [] = Some [''198.41.0.4'']"
    and b2: "udp glueless_env [''198.41.0.4''] ''199.9.14.201'' [1] =
      (Reply [11] 20, [''198.41.0.4'', ''199.9.14.201''])"
    and c2: "dns_parse glueless_env [11] = Some root_referral_glueless"
    by (simp_all add: glueless_env_def fixture_def messages_def)
  note d2 = root_referral_glueless_facts
  have t2: "take 2 glueless_trace = [] @ map (timeout_entry (Suc 0)) [''198.41.0.4''] @
      [response_entry (Suc 0) ''199.9.14.201'' 20 root_referral_glueless]"
    by (simp add: glueless_trace_def)
  have g: "glue_loop glueless_env 8 [''198.41.0.4'', ''199.9.14.201''] [''a.gtld.example.'']
       (take 2 glueless_trace) [] =
     Some (Inr (([''192.0.2.1''], take 4 glueless_trace),
                [''198.41.0.4'', ''199.9.14.201'', ''198.41.0.4'', ''199.9.14.201'']))"
    by code_simp
  from next_candidates_from_referral [OF a1 b1 c1 d1,
      where lg = "[]" and k = 0 and n = 2 and post = "[''199.9.14.201'', ''192.33.4.12'']"]
  have 1: "while_loop three_level_env (Suc 2) [] [1] 0 ROOT_NS [] =
     while_loop three_level_env 2 [''198.41.0.4''] [1] (Suc 0) [''192.0.2.1'']
       [response_entry (Suc 0) ''198.41.0.4'' 20 root_referral_glued]"
    by (simp add: Let_def e1 ROOT_NS_def del: while_loop.simps)
  note inst = next_candidates_from_referral [OF a2 b2 c2 d2(1),
      where lg = "[]" and k = 0 and n = 8 and post = "[''192.33.4.12'']",
      unfolded Let_def t2 [symmetric] d2]
  from inst g
  have 2: "\<exists>logs. take 4 glueless_trace = take 2 glueless_trace @ logs \<and>
      collects glueless_env [''198.41.0.4'', ''199.9.14.201''] [''a.gtld.example.'']
        [''192.0.2.1''] logs
        [''198.41.0.4'', ''199.9.14.201'', ''198.41.0.4'', ''199.9.14.201'']"
    by blast
  from inst g
  have 3: "while_loop glueless_env (Suc 8) [] [1] 0 ROOT_NS [] =
     while_loop glueless_env 8
       [''198.41.0.4'', ''199.9.14.201'', ''198.41.0.4'', ''199.9.14.201''] [1] (Suc 0)
       [''192.0.2.1''] (take 4 glueless_trace)"
    by (simp add: ROOT_NS_def del: while_loop.simps glue_loop.simps)
  from a1 b1 c1 d1 e1 1 a2 b2 c2 d2 g 2 3 show ?thesis by blast
qed

section \<open>C6: the stage of a reply\<close>

lemma reply_entry_stays:
  assumes pc: "probe_candidates (udp E) qb (Suc k) cs lg w = Inr (Some (s, d, t), lg1, w1)"
    and pm: "dns_parse E d = Some pm"
    and h: "while_loop E (Suc n) w qb k cs lg = Some (Inr ((payload, lg'), w'))"
  shows "\<exists>rest. lg' = lg1 @ response_entry (Suc k) s t pm # rest"
proof -
  define lg2 where "lg2 = lg1 @ [response_entry (Suc k) s t pm]"
  consider (ans) "rr pm \<noteq> []"
    | (glue) "rr pm = []" "glue_ips pm \<noteq> []"
    | (nons) "rr pm = []" "glue_ips pm = []" "ns_names pm = []"
    | (names) "rr pm = []" "glue_ips pm = []" "ns_names pm \<noteq> []"
    by blast
  then have "\<exists>more. lg' = lg2 @ more"
  proof cases
    case ans
    with h pc pm show ?thesis by (simp add: lg2_def)
  next
    case nons
    with h pc pm show ?thesis by (simp add: lg2_def)
  next
    case glue
    with h pc pm
    have "while_loop E n w1 qb (Suc k) (glue_ips pm) lg2 = Some (Inr ((payload, lg'), w'))"
      by (simp add: lg2_def)
    from trace_shape(2) [OF this] show ?thesis by blast
  next
    case names
    with h pc pm obtain ips lg3 w2 where
      g: "glue_loop E n w1 (ns_names pm) lg2 [] = Some (Inr ((ips, lg3), w2))"
      by (auto simp: lg2_def split: option.splits sum.splits)
    from trace_shape(3) [OF this] obtain subs where subs: "lg3 = lg2 @ subs" by blast
    show ?thesis
    proof (cases "ips = []")
      case True
      with h pc pm names g have "lg' = lg3" by (simp add: lg2_def)
      with subs show ?thesis by blast
    next
      case False
      with h pc pm names g
      have "while_loop E n w2 qb (Suc k) ips lg3 = Some (Inr ((payload, lg'), w'))"
        by (simp add: lg2_def)
      from trace_shape(2) [OF this] subs show ?thesis by auto
    qed
  qed
  then show ?thesis by (auto simp: lg2_def)
qed

text \<open>
  C6. At a level with step index \<open>k + 1\<close>, let the candidates \<open>pre\<close> time out and \<open>srv\<close>
  reply with a datagram that parses to \<open>parsed\<close>. Whenever the loop returns, its timeline
  holds, right after the timeout entries of the level, the entry of that reply, and the
  stage recorded in it follows the three-way rule: Root at step 1; at a later step TLD
  exactly when the reply has an authority section and no answer record; Authoritative
  otherwise.
\<close>

theorem stage_by_three_way_rule:
  assumes "all_time_out (udp E) qb pre w = Some w0"
    and "udp E w0 srv qb = (Reply d t, w1)"
    and "dns_parse E d = Some parsed"
    and "while_loop E (Suc n) w qb k (pre @ srv # post) lg = Some (Inr ((payload, lg'), w'))"
  shows "\<exists>e rest. lg' = lg @ map (timeout_entry (Suc k)) pre @ e # rest \<and>
           step e = Suc k \<and> server e = srv \<and>
           stage e = Some (if Suc k = 1 then ''Root''
                           else if auth parsed \<noteq> [] \<and> rr parsed = [] then ''TLD''
                           else ''Authoritative'')"
proof -
  from reply_entry_stays [OF probe_first_reply [OF assms(1,2)] assms(3,4)]
  obtain rest where "lg' = (lg @ map (timeout_entry (Suc k)) pre) @
      response_entry (Suc k) srv t parsed # rest" by blast
  then show ?thesis
    by (intro exI [of _ "response_entry (Suc k) srv t parsed"] exI [of _ rest])
       (simp add: response_entry_def classify_stage_def)
qed

theorem stage_by_three_way_rule_witness:
  "all_time_out (udp three_level_env) [1] [] [''198.41.0.4''] = Some [''198.41.0.4''] \<and>
   udp three_level_env [''198.41.0.4''] ''192.0.2.1'' [1] =
     (Reply [13] 15, [''198.41.0.4'', ''192.0.2.1'']) \<and>
   dns_parse three_level_env [13] = Some tld_referral \<and>
   while_loop three_level_env (Suc 1) [''198.41.0.4''] [1] 1 [''192.0.2.1'']
       [response_entry 1 ''198.41.0.4'' 20 root_referral_glued] =
     Some (Inr ((Some [14],
                 [response_entry 1 ''198.41.0.4'' 20 root_referral_glued,
                  response_entry 2 ''192.0.2.1'' 15 tld_referral,
                  response_entry 3 ''192.0.2.53'' 9 www_answer]),
                [''198.41.0.4'', ''192.0.2.1'', ''192.0.2.53''])) \<and>
   (\<exists>e rest.
      [response_entry 1 ''198.41.0.4'' 20 root_referral_glued,
       response_entry 2 ''192.0.2.1'' 15 tld_referral,
       response_entry 3 ''192.0.2.53'' 9 www_answer] =
        [response_entry 1 ''198.41.0.4'' 20 root_referral_glued] @ e # rest \<and>
      step e = 2 \<and> server e = ''192.0.2.1'' \<and> stage e = Some ''TLD'')"
proof -
  have a: "all_time_out (udp three_level_env) [1] [] [''198.41.0.4''] = Some [''198.41.0.4'']"
    and b: "udp three_level_env [''198.41.0.4''] ''192.0.2.1'' [1] =
       (Reply [13] 15, [''198.41.0.4'', ''192.0.2.1''])"
    and c: "dns_parse three_level_env [13] = Some tld_referral"
    by (simp_all add: three_level_env_def fixture_def messages_def)
  have d: "while_loop three_level_env (Suc 1) [''198.41.0.4''] [1] 1 ([] @ ''192.0.2.1'' # [])
       [response_entry 1 ''198.41.0.4'' 20 root_referral_glued] =
     Some (Inr ((Some [14],
                 [response_entry 1 ''198.41.0.4'' 20 root_referral_glued,
                  response_entry 2 ''192.0.2.1'' 15 tld_referral,
                  response_entry 3 ''192.0.2.53'' 9 www_answer]),
                [''198.41.0.4'', ''192.0.2.1'', ''192.0.2.53'']))"
    by code_simp
  from stage_by_three_way_rule [OF a b c d] a b c d show ?thesis
    by (simp add: tld_referral_def)
qed

section \<open>C7: three levels with glue\<close>

text \<open>
  C7. Let the first root server reply with a referral that carries glue, let the first
  server that referral gives reply with a referral that carries glue, and let the first
  server of that one reply with a message that has answer records. Then, on any fuel
  from four units up, \<^verbatim>\<open>resolve_iteratively\<close> returns the last datagram as its payload,
  and the trace has exactly three entries, with the step indices 1, 2, 3 and the stages
  Root, TLD, Authoritative.
\<close>

theorem three_level_resolution:
  assumes "dns_parse E qb = Some query"
    and "udp E w (hd ROOT_NS) qb = (Reply d1 t1, w1)"
    and "dns_parse E d1 = Some p1" and "glued_referral p1"
    and "udp E w1 (hd (glue_ips p1)) qb = (Reply d2 t2, w2)"
    and "dns_parse E d2 = Some p2" and "glued_referral p2"
    and "udp E w2 (hd (glue_ips p2)) qb = (Reply d3 t3, w3)"
    and "dns_parse E d3 = Some p3" and "rr p3 \<noteq> []"
  shows "\<exists>tr. resolve_iteratively E (Suc (Suc (Suc (Suc n)))) w qb =
             Some (Inr ((Some d3, tr, qname query), w3)) \<and>
           length tr = 3 \<and> map step tr = [1, 2, 3] \<and>
           map stage tr = [Some ''Root'', Some ''TLD'', Some ''Authoritative''] \<and>
           map server tr = [hd ROOT_NS, hd (glue_ips p1), hd (glue_ips p2)] \<and>
           map rtt tr = [Some t1, Some t2, Some t3]"
proof -
  have pc1: "probe_candidates (udp E) qb (Suc 0) ROOT_NS [] w =
      Inr (Some (hd ROOT_NS, d1, t1), [], w1)"
    using assms(2) by (simp add: ROOT_NS_def)
  from assms(4) have g1: "glue_ips p1 \<noteq> []" "rr p1 = []"
    by (simp_all add: glued_referral_def)
  from assms(7) have g2: "glue_ips p2 \<noteq> []" "rr p2 = []"
    by (simp_all add: glued_referral_def)
  from assms(7) have a2: "auth p2 \<noteq> []"
    by (cases "auth p2") (simp_all add: glued_referral_def ns_names_def)
  have pc2: "probe_candidates (udp E) qb (Suc (Suc 0)) (glue_ips p1) l w1 =
      Inr (Some (hd (glue_ips p1), d2, t2), l, w2)" for l
    using assms(5) g1 by (cases "glue_ips p1") simp_all
  have pc3: "probe_candidates (udp E) qb (Suc (Suc (Suc 0))) (glue_ips p2) l w2 =
      Inr (Some (hd (glue_ips p2), d3, t3), l, w3)" for l
    using assms(8) g2 by (cases "glue_ips p2") simp_all
  define e1 where "e1 = response_entry (Suc 0) (hd ROOT_NS) t1 p1"
  define e2 where "e2 = response_entry (Suc (Suc 0)) (hd (glue_ips p1)) t2 p2"
  define e3 where "e3 = response_entry (Suc (Suc (Suc 0))) (hd (glue_ips p2)) t3 p3"
  have l3: "while_loop E (Suc n) w2 qb (Suc (Suc 0)) (glue_ips p2) [e1, e2] =
      Some (Inr ((Some d3, [e1, e2, e3]), w3))"
    by (subst while_loop.simps(2)) (simp add: pc3 assms(9,10) e3_def [symmetric])
  have l2: "while_loop E (Suc (Suc n)) w1 qb (Suc 0) (glue_ips p1) [e1] =
      Some (Inr ((Some d3, [e1, e2, e3]), w3))"
    by (subst while_loop.simps(2))
       (simp add: pc2 assms(6) g2 l3 e2_def [symmetric] del: while_loop.simps)
  have l1: "while_loop E (Suc (Suc (Suc n))) w qb 0 ROOT_NS [] =
      Some (Inr ((Some d3, [e1, e2, e3]), w3))"
    by (subst while_loop.simps(2))
       (simp add: pc1 assms(3) g1 l2 e1_def [symmetric] del: while_loop.simps)
  have run: "resolve_iteratively E (Suc (Suc (Suc (Suc n)))) w qb =
      Some (Inr ((Some d3, [e1, e2, e3], qname query), w3))"
    by (subst resolve_iteratively.simps(2)) (simp add: assms(1) l1 del: while_loop.simps)
  have "map stage [e1, e2, e3] = [Some ''Root'', Some ''TLD'', Some ''Authoritative'']"
    using g2 a2 assms(10)
    by (simp add: e1_def e2_def e3_def response_entry_def classify_stage_def)
  moreover have "map step [e1, e2, e3] = [1, 2, 3]"
    "map server [e1, e2, e3] = [hd ROOT_NS, hd (glue_ips p1), hd (glue_ips p2)]"
    "map rtt [e1, e2, e3] = [Some t1, Some t2, Some t3]"
    by (simp_all add: e1_def e2_def e3_def response_entry_def)
  ultimately show ?thesis using run by (intro exI [of _ "[e1, e2, e3]"]) simp
qed

theorem three_level_resolution_witness:
  "dns_parse three_level_env [1] = Some query_www \<and>
   udp three_level_env [] (hd ROOT_NS) [1] = (Reply [15] 20, [''198.41.0.4'']) \<and>
   dns_parse three_level_env [15] = Some root_referral_glued \<and>
   glued_referral root_referral_glued \<and>
   udp three_level_env [''198.41.0.4''] (hd (glue_ips root_referral_glued)) [1] =
     (Reply [13] 15, [''198.41.0.4'', ''192.0.2.1'']) \<and>
   dns_parse three_level_env [13] = Some tld_referral \<and>
   glued_referral tld_referral \<and>
   udp three_level_env [''198.41.0.4'', ''192.0.2.1''] (hd (glue_ips tld_referral)) [1] =
     (Reply [14] 9, [''198.41.0.4'', ''192.0.2.1'', ''192.0.2.53'']) \<and>
   dns_parse three_level_env [14] = Some www_answer \<and>
   rr www_answer \<noteq> [] \<and>
   (\<exists>tr. resolve_iteratively three_level_env (Suc (Suc (Suc (Suc 0)))) [] [1] =
            Some (Inr ((Some [14], tr, qname query_www),
                       [''198.41.0.4'', ''192.0.2.1'', ''192.0.2.53''])) \<and>
          length tr = 3 \<and> map step tr = [1, 2, 3] \<and>
          map stage tr = [Some ''Root'', Some ''TLD'', Some ''Authoritative''] \<and>
          map server tr =
            [hd ROOT_NS, hd (glue_ips root_referral_glued), hd (glue_ips tld_referral)] \<and>
          map rtt tr = [Some 20, Some 15, Some 9])"
proof -
  have q: "dns_parse three_level_env [1] = Some query_www"
    and m1: "dns_parse three_level_env [15] = Some root_referral_glued"
    and m2: "dns_parse three_level_env [13] = Some tld_referral"
    and m3: "dns_parse three_level_env [14] = Some www_answer"
    by (simp_all add: three_level_env_def fixture_def messages_def)
  have r1: "glued_referral root_referral_glued" and r2: "glued_referral tld_referral"
    and r3: "rr www_answer \<noteq> []"
    by (simp_all add: glued_referral_def root_referral_glued_def tld_referral_def
        www_answer_def glue_ips_def ns_names_def a_addresses_def)
  have u1: "udp three_level_env [] (hd ROOT_NS) [1] = (Reply [15] 20, [''198.41.0.4''])"
    and u2: "udp three_level_env [''198.41.0.4''] (hd (glue_ips root_referral_glued)) [1] =
       (Reply [13] 15, [''198.41.0.4'', ''192.0.2.1''])"
    and u3: "udp three_level_env [''198.41.0.4'', ''192.0.2.1''] (hd (glue_ips tld_referral)) [1] =
       (Reply [14] 9, [''198.41.0.4'', ''192.0.2.1'', ''192.0.2.53''])"
    by (simp_all add: three_level_env_def fixture_def ROOT_NS_def root_referral_glued_def
        tld_referral_def glue_ips_def a_addresses_def)
  from three_level_resolution [OF q u1 m1 r1 u2 m2 r2 u3 m3 r3, of 0]
  show ?thesis using q m1 m2 m3 r1 r2 r3 u1 u2 u3 by simp
qed

section \<open>C8: the serialized step\<close>

lemma is_digit_digit_char: "is_digit (digit_char d)"
  by (simp add: is_digit_def digit_char_def)

lemma show_nat_digits: "show_nat n \<noteq> [] \<and> list_all is_digit (show_nat n)"
proof (induction n rule: show_nat.induct)
  case (1 n)
  show ?case
  proof (cases "n < 10")
    case True
    then show ?thesis by (subst (1 2) show_nat.simps) (simp add: is_digit_digit_char)
  next
    case False
    with 1 show ?thesis by (subst (1 2) show_nat.simps) (simp add: is_digit_digit_char)
  qed
qed

lemma fmt2_decimal: "0 \<le> x \<Longrightarrow> is_decimal2 (fmt2 x)"
  using show_nat_digits [of "nat (round_half_even (\<bar>x\<bar> * 100)) div 100"]
  by (simp add: fmt2_def is_decimal2_def Let_def is_digit_digit_char)

lemma occurs_in_prefix: "occurs_in pat (pat @ ys)"
proof (cases "pat @ ys")
  case Nil
  then show ?thesis by simp
next
  case (Cons c cs)
  have "take (length pat) (pat @ ys) = pat" by simp
  with Cons have "take (length pat) (c # cs) = pat" by simp
  with Cons show ?thesis by (simp del: take_Suc_Cons)
qed

lemma occurs_in_append: "occurs_in pat (xs @ pat @ ys)"
proof (induction xs)
  case Nil
  show ?case using occurs_in_prefix [of pat ys] by simp
next
  case (Cons x xs)
  then show ?case by simp
qed

lemma schema_line_has_unit: "occurs_in '' ms | '' (schema_line l)"
proof -
  have "schema_line l =
      (f_timestamp l @ '' | '' @ f_domain l @ '' | '' @ f_mode l @ '' | '' @ f_server l @
       '' | Step: '' @ f_stage l @ '' | Response: '' @ f_summary l @ '' | RTT: '' @ f_rtt l) @
      '' ms | '' @ f_cache l"
    by (simp add: schema_line_def schema_fields_def)
  then show ?thesis by (simp only: occurs_in_append)
qed

text \<open>
  C8, as amended. The schema is that of the log of \<^verbatim>\<open>iterative_lookup\<close>, the client.
  For an exchange that returned, its line is the schema's, with the mode \<^verbatim>\<open>Iterative\<close>,
  the round-trip time as a decimal value with two decimals, and the cache status
  \<^verbatim>\<open>Cache MISS\<close>; the line of a cache hit is the schema's too, with \<^verbatim>\<open>Total: 0 ms\<close> ahead of
  the cache status. For an exchange that raised, the line has \<^verbatim>\<open>-\<close> as the round-trip
  time and no unit: \<^verbatim>\<open>RTT: - | Cache MISS\<close>. The resolver's own log, written by
  \<^verbatim>\<open>run_server\<close>, has another format: \<^verbatim>\<open>Step\<close>, \<^verbatim>\<open>Server\<close>, \<^verbatim>\<open>Stage\<close> (\<^verbatim>\<open>N/A\<close> for a timeout) and
  \<^verbatim>\<open>RTT\<close> (\<^verbatim>\<open>None\<close> for a timeout), followed by \<^verbatim>\<open>ms\<close>.
\<close>

theorem serialized_steps:
  "log_line (RootReferral ts dmn srv t) =
     schema_line \<lparr>f_timestamp = ts, f_domain = dmn, f_mode = ''Iterative'', f_server = srv,
       f_stage = ''Root'', f_summary = ''Referral'', f_rtt = fmt2 t, f_cache = ''Cache MISS''\<rparr> \<and>
   log_line (TldReferral ts dmn srv t) =
     schema_line \<lparr>f_timestamp = ts, f_domain = dmn, f_mode = ''Iterative'', f_server = srv,
       f_stage = ''TLD'', f_summary = ''Referral'', f_rtt = fmt2 t, f_cache = ''Cache MISS''\<rparr> \<and>
   log_line (AuthAnswer ts dmn a ips t) =
     schema_line \<lparr>f_timestamp = ts, f_domain = dmn, f_mode = ''Iterative'',
       f_server = py_str_opt a, f_stage = ''Authoritative'', f_summary = py_str_list ips,
       f_rtt = fmt2 t, f_cache = ''Cache MISS''\<rparr> \<and>
   log_line (AuthNoAnswer ts dmn a t) =
     schema_line \<lparr>f_timestamp = ts, f_domain = dmn, f_mode = ''Iterative'',
       f_server = py_str_opt a, f_stage = ''Authoritative'', f_summary = ''NO ANSWER'',
       f_rtt = fmt2 t, f_cache = ''Cache MISS''\<rparr> \<and>
   log_line (CacheHit ts dmn ips) =
     schema_line \<lparr>f_timestamp = ts, f_domain = dmn, f_mode = ''Iterative'',
       f_server = ''CACHE'', f_stage = ''Cache'', f_summary = py_str_list ips,
       f_rtt = ''0'', f_cache = ''Total: 0 ms | Cache HIT''\<rparr> \<and>
   (0 \<le> t \<longrightarrow> is_decimal2 (fmt2 t)) \<and>
   log_line (RootFail ts dmn srv ex) =
     schema_fields [] \<lparr>f_timestamp = ts, f_domain = dmn, f_mode = ''Iterative'',
       f_server = srv, f_stage = ''Root'', f_summary = ''FAIL ('' @ ex @ '')'',
       f_rtt = ''-'', f_cache = ''Cache MISS''\<rparr> \<and>
   log_line (TldFail ts dmn srv ex) =
     schema_fields [] \<lparr>f_timestamp = ts, f_domain = dmn, f_mode = ''Iterative'',
       f_server = srv, f_stage = ''TLD'', f_summary = ''FAIL ('' @ ex @ '')'',
       f_rtt = ''-'', f_cache = ''Cache MISS''\<rparr> \<and>
   log_line (AuthFail ts dmn a ex) =
     schema_fields [] \<lparr>f_timestamp = ts, f_domain = dmn, f_mode = ''Iterative'',
       f_server = py_str_opt a, f_stage = ''Authoritative'',
       f_summary = ''FAIL ('' @ ex @ '')'', f_rtt = ''-'', f_cache = ''Cache MISS''\<rparr> \<and>
   server_step_line str_float (timeout_entry k srv) =
     ''  Step '' @ show_nat k @ '' | Server: '' @ srv @ '' | Stage: N/A | RTT: None ms'' \<and>
   server_step_line str_float (response_entry k srv t parsed) =
     ''  Step '' @ show_nat k @ '' | Server: '' @ srv @ '' | Stage: '' @
     classify_stage k parsed @ '' | RTT: '' @ str_float t @ '' ms''"
  by (simp add: schema_line_def schema_fields_def mode_def fmt2_decimal server_step_line_def
      timeout_entry_def response_entry_def)

theorem serialized_steps_witness:
  "(0::rat) \<le> 617 / 50 \<and> fmt2 (617 / 50) = ''12.34'' \<and> is_decimal2 (fmt2 (617 / 50)) \<and>
   log_line (RootReferral ''2025-01-01 10:00:00'' ''example.com'' ''198.41.0.4'' (617 / 50)) =
     ''2025-01-01 10:00:00 | example.com | Iterative | 198.41.0.4 | Step: Root | Response: Referral | RTT: 12.34 ms | Cache MISS'' \<and>
   log_line (RootFail ''2025-01-01 10:00:00'' ''example.com'' ''198.41.0.4'' ''timed out'') =
     ''2025-01-01 10:00:00 | example.com | Iterative | 198.41.0.4 | Step: Root | Response: FAIL (timed out) | RTT: - | Cache MISS'' \<and>
   server_step_line fmt2 (timeout_entry 1 ''198.41.0.4'') =
     ''  Step 1 | Server: 198.41.0.4 | Stage: N/A | RTT: None ms''"
proof -
  have f: "fmt2 (617 / 50) = ''12.34''" by code_simp
  have s: "show_nat (Suc 0) = ''1''" by code_simp
  from serialized_steps
    [of "''2025-01-01 10:00:00''" "''example.com''" "''198.41.0.4''" "617 / 50" None "[]"
        "''timed out''" fmt2 1 query_www]
  show ?thesis
    by (simp add: f s schema_line_def schema_fields_def)
qed

text \<open>
  C8 as stated fails. Every line of the schema holds the unit of the round-trip time
  (\<open>schema_line_has_unit\<close>). The line the client writes for a root server that did not
  reply holds none, whatever the fields; and the line \<^verbatim>\<open>run_server\<close> writes for an entry
  of the resolver's trace has no \<^verbatim>\<open>Step:\<close> field at all.
\<close>

theorem failure_line_is_not_the_schema:
  "log_line (RootFail ''2025-01-01 10:00:00'' ''example.com'' ''198.41.0.4'' ''timed out'') =
     ''2025-01-01 10:00:00 | example.com | Iterative | 198.41.0.4 | Step: Root | Response: FAIL (timed out) | RTT: - | Cache MISS'' \<and>
   log_line (RootFail ''2025-01-01 10:00:00'' ''example.com'' ''198.41.0.4'' ''timed out'') \<noteq>
     schema_line \<lparr>f_timestamp = ''2025-01-01 10:00:00'', f_domain = ''example.com'',
       f_mode = ''Iterative'', f_server = ''198.41.0.4'', f_stage = ''Root'',
       f_summary = ''FAIL (timed out)'', f_rtt = ''-'', f_cache = ''Cache MISS''\<rparr> \<and>
   \<not> occurs_in '' ms | ''
       (log_line (RootFail ''2025-01-01 10:00:00'' ''example.com'' ''198.41.0.4'' ''timed out'')) \<and>
   server_step_line fmt2 (timeout_entry 1 ''198.41.0.4'') =
     ''  Step 1 | Server: 198.41.0.4 | Stage: N/A | RTT: None ms'' \<and>
   \<not> occurs_in '' | Step: '' (server_step_line fmt2 (timeout_entry 1 ''198.41.0.4''))"
  by code_simp

section \<open>C9: the fields of an entry\<close>

lemma classify_stage_cases:
  "classify_stage k p \<in> set stages"
  by (simp add: classify_stage_def stages_def)

lemma summarize_not_empty: "summarize p \<noteq> []"
  by (simp add: summarize_def Let_def)

lemma entry_fields_timeout: "1 \<le> k \<Longrightarrow> entry_fields (timeout_entry k s)"
  by (simp add: entry_fields_def timeout_entry_def)

lemma entry_fields_response: "1 \<le> k \<Longrightarrow> entry_fields (response_entry k s t p)"
  using classify_stage_cases [of k p] summarize_not_empty [of p]
  by (simp add: entry_fields_def response_entry_def)

lemma entry_fields_trace:
  "trace_from k t \<Longrightarrow> 1 \<le> k \<Longrightarrow> list_all entry_fields t"
  "spliced t \<Longrightarrow> list_all entry_fields t"
proof (induction rule: trace_from_spliced.inducts)
  case (all_timed_out k srvs)
  then show ?case by (auto simp: list_all_iff entry_fields_timeout)
next
  case (responded subs k rest srvs srv t p)
  then show ?case by (auto simp: list_all_iff entry_fields_timeout entry_fields_response)
next
  case no_glue_call
  show ?case by simp
next
  case (glue_call sub subs)
  then show ?case by simp
qed

text \<open>
  C9, as amended. Every entry of the returned trace has a step index of at least 1, a
  server, and one of two shapes. The entry of a reply has a round-trip time, a stage
  among Root, TLD and Authoritative, a summary that is not empty, and no status. The
  entry of a candidate that timed out has the round-trip time null and the status
  \<^verbatim>\<open>timeout\<close>, and neither a stage nor a summary.
\<close>

theorem entries_have_one_of_two_shapes:
  "resolve_iteratively E n w query_bytes = Some (Inr ((payload, t, nm), w')) \<Longrightarrow>
   list_all entry_fields t"
  using entry_fields_trace(1) [OF trace_shape(1)] by simp

theorem entries_have_one_of_two_shapes_witness:
  "resolve_iteratively glueless_env 10 [] [1] =
     Some (Inr ((Some [14], glueless_trace, ''www.example.com.''),
       [''198.41.0.4'', ''199.9.14.201'', ''198.41.0.4'', ''199.9.14.201'',
        ''192.0.2.1'', ''192.0.2.53''])) \<and>
   list_all entry_fields glueless_trace"
  using entries_have_one_of_two_shapes [OF glueless_run] glueless_run by simp

text \<open>
  C9 as stated fails: when no root server replies, the trace holds three entries of
  timeouts, and none of them has a stage or a summary.
\<close>

theorem timeout_entries_lack_fields:
  "resolve_iteratively dead_env 2 [] [1] =
     Some (Inr ((None, map (timeout_entry 1) ROOT_NS, ''www.example.com.''), ROOT_NS)) \<and>
   map stage (map (timeout_entry 1) ROOT_NS) = [None, None, None] \<and>
   map response (map (timeout_entry 1) ROOT_NS) = [None, None, None] \<and>
   \<not> list_all full_entry (map (timeout_entry 1) ROOT_NS)"
  using dead_run by (simp add: ROOT_NS_def timeout_entry_def full_entry_def)

section \<open>C10: the payload\<close>

lemma probe_candidates_reply:
  "probe_candidates exch q k cs lg w = Inr (Some (s, d, t), lg1, w1) \<Longrightarrow>
   \<exists>w0. exch w0 s q = (Reply d t, w1)"
  by (drule probe_candidates_Some) blast

lemma loop_payload:
  "while_loop E n w qb k cs lg = Some (Inr ((Some d, lg'), w')) \<Longrightarrow>
   \<exists>pm s t w0 j. dns_parse E d = Some pm \<and> rr pm \<noteq> [] \<and>
      udp E w0 s qb = (Reply d t, w') \<and> lg' \<noteq> [] \<and> last lg' = response_entry j s t pm"
proof (induction n arbitrary: w k cs lg)
  case 0
  then show ?case by simp
next
  case (Suc n)
  note h = Suc.prems
  obtain r lg1 w1 where pc: "probe_candidates (udp E) qb (Suc k) cs lg w = Inr (r, lg1, w1)"
    using h by (auto split: sum.splits)
  show ?case
  proof (cases r)
    case None
    with pc h show ?thesis by simp
  next
    case (Some sdt)
    obtain s dd t where sdt: "sdt = (s, dd, t)" by (cases sdt)
    note pc' = pc [unfolded Some sdt]
    from probe_candidates_reply [OF pc'] obtain w0 where
      ex: "udp E w0 s qb = (Reply dd t, w1)" by blast
    from h pc' obtain pm where pm: "dns_parse E dd = Some pm"
      by (auto split: option.splits)
    define lg2 where "lg2 = lg1 @ [response_entry (Suc k) s t pm]"
    consider (ans) "rr pm \<noteq> []"
      | (glue) "rr pm = []" "glue_ips pm \<noteq> []"
      | (nons) "rr pm = []" "glue_ips pm = []" "ns_names pm = []"
      | (names) "rr pm = []" "glue_ips pm = []" "ns_names pm \<noteq> []"
      by blast
    then show ?thesis
    proof cases
      case ans
      with h pc' pm have "d = dd" "lg' = lg2" "w' = w1" by (simp_all add: lg2_def)
      with ans pm ex show ?thesis by (auto simp: lg2_def)
    next
      case nons
      with h pc' pm show ?thesis by simp
    next
      case glue
      with h pc' pm
      have "while_loop E n w1 qb (Suc k) (glue_ips pm) lg2 = Some (Inr ((Some d, lg'), w'))"
        by (simp add: lg2_def)
      from Suc.IH [OF this] show ?thesis .
    next
      case names
      with h pc' pm obtain ips lg3 w2 where
        g: "glue_loop E n w1 (ns_names pm) lg2 [] = Some (Inr ((ips, lg3), w2))"
        by (auto simp: lg2_def split: option.splits sum.splits)
      show ?thesis
      proof (cases "ips = []")
        case True
        with h pc' pm names g show ?thesis by (simp add: lg2_def)
      next
        case False
        with h pc' pm names g
        have "while_loop E n w2 qb (Suc k) ips lg3 = Some (Inr ((Some d, lg'), w'))"
          by (simp add: lg2_def)
        from Suc.IH [OF this] show ?thesis .
      qed
    qed
  qed
qed

text \<open>
  C10. A payload that \<^verbatim>\<open>resolve_iteratively\<close> returns is the datagram of the last exchange
  of the run, as received: that exchange left the world as the call returns it, the
  datagram parses to a message with answer records, and the last entry of the trace is
  the entry of that reply, made for the server that sent it. On every other way out of
  the loop (no candidate replied, or no next candidate was found) the payload is
  \<^verbatim>\<open>None\<close>, as it was initialised; C4 and C5 give those runs.
\<close>

theorem payload_is_the_answering_datagram:
  "resolve_iteratively E n w qb = Some (Inr ((Some d, tr, nm), w')) \<Longrightarrow>
   \<exists>parsed srv t w0 j.
      udp E w0 srv qb = (Reply d t, w') \<and>
      dns_parse E d = Some parsed \<and> rr parsed \<noteq> [] \<and>
      tr \<noteq> [] \<and> last tr = response_entry j srv t parsed"
proof (cases n)
  case 0
  assume "resolve_iteratively E n w qb = Some (Inr ((Some d, tr, nm), w'))"
  with 0 show ?thesis by simp
next
  case (Suc m)
  assume "resolve_iteratively E n w qb = Some (Inr ((Some d, tr, nm), w'))"
  with Suc have "while_loop E m w qb 0 ROOT_NS [] = Some (Inr ((Some d, tr), w'))"
    by (auto split: option.splits sum.splits)
  from loop_payload [OF this] show ?thesis by blast
qed

theorem payload_is_the_answering_datagram_witness:
  "resolve_iteratively glueless_env 10 [] [1] =
     Some (Inr ((Some [14], glueless_trace, ''www.example.com.''),
       [''198.41.0.4'', ''199.9.14.201'', ''198.41.0.4'', ''199.9.14.201'',
        ''192.0.2.1'', ''192.0.2.53''])) \<and>
   (\<exists>parsed srv t w0 j.
      udp glueless_env w0 srv [1] =
        (Reply [14] t, [''198.41.0.4'', ''199.9.14.201'', ''198.41.0.4'', ''199.9.14.201'',
                        ''192.0.2.1'', ''192.0.2.53'']) \<and>
      dns_parse glueless_env [14] = Some parsed \<and> rr parsed \<noteq> [] \<and>
      glueless_trace \<noteq> [] \<and> last glueless_trace = response_entry j srv t parsed)"
  using payload_is_the_answering_datagram [OF glueless_run] glueless_run by simp

end
